theory Spec2Isabelle
  imports Main "HOL-Library.Word"
begin

unbundle bit_operations_syntax

section \<open>Bytes and the number formats of the file\<close>

type_synonym byte = "8 word"
type_synonym bytes = "byte list"

text \<open>
  Modelled from the spec: the conversions hton16, hton64, ntoh16, ntoh64 and the
  fixed-width numbers writefixnum and readfixnum live in kcutil.h, which is not among
  the sources. The spec asks for a bit-exact format with fixed-width slots; the model
  takes the network byte order the names state: a number of \<open>w\<close> bytes, most
  significant byte first, the value reduced modulo \<open>256 ^ w\<close>.
\<close>

fun be_bytes :: "nat \<Rightarrow> nat \<Rightarrow> bytes" where
  "be_bytes 0 n = []"
| "be_bytes (Suc w) n = be_bytes w (n div 256) @ [of_nat n]"

definition be_nat :: "bytes \<Rightarrow> nat" where
  "be_nat bs = foldl (\<lambda>a b. a * 256 + unat b) 0 bs"

definition hton64 :: "nat \<Rightarrow> bytes" where
  "hton64 n = be_bytes 8 n"

definition ntoh64 :: "bytes \<Rightarrow> nat" where
  "ntoh64 bs = be_nat (take 8 bs)"

definition hton16 :: "nat \<Rightarrow> bytes" where
  "hton16 n = be_bytes 2 n"

definition ntoh16 :: "bytes \<Rightarrow> nat" where
  "ntoh16 bs = be_nat (take 2 bs)"

definition writefixnum :: "nat \<Rightarrow> nat \<Rightarrow> bytes" where
  "writefixnum num width = be_bytes width num"

definition readfixnum :: "bytes \<Rightarrow> nat \<Rightarrow> nat" where
  "readfixnum buf width = be_nat (take width buf)"

section \<open>The block file (kcfile.cc, the POSIX branch)\<close>

text \<open>
  The file is an array of bytes: the memory-mapped head and the part reached by
  pread/pwrite are one content, \<open>core_map\<close>, since the mapping is shared with the
  file. The system calls (ftruncate, pread, pwrite, msync, fsync, open, mmap) are taken
  to succeed; every check the code itself makes is a branch of the model. A file that is
  cut by ftruncate reads as zero beyond its end when it grows again.
\<close>

definition WALMAPSIZ :: nat where
  "WALMAPSIZ = 262144"

definition WALMSGMAGIC :: byte where
  "WALMSGMAGIC = 0xee"

definition WALMAGICDATA :: bytes where
  "WALMAGICDATA = [0x4b, 0x57, 0x0a, 0x00]"

definition IOBUFSIZ :: nat where
  "IOBUFSIZ = 1024"

record FileCore =
  core_map :: "nat \<Rightarrow> byte"
  core_msiz :: nat
  core_lsiz :: nat
  core_psiz :: nat
  core_pagesize :: nat
  core_walfd :: bool
  core_walmap :: "nat \<Rightarrow> byte"
  core_walfsiz :: nat
  core_walsiz :: nat
  core_tran :: bool
  core_trhard :: bool
  core_trbase :: nat
  core_trmsiz :: nat

text \<open>memcpy into and out of an array of bytes.\<close>

definition store_bytes :: "(nat \<Rightarrow> byte) \<Rightarrow> nat \<Rightarrow> bytes \<Rightarrow> (nat \<Rightarrow> byte)" where
  "store_bytes m off buf = (\<lambda>i. if off \<le> i \<and> i < off + length buf then buf ! (i - off) else m i)"

definition load_bytes :: "(nat \<Rightarrow> byte) \<Rightarrow> nat \<Rightarrow> nat \<Rightarrow> bytes" where
  "load_bytes m off siz = map m [off ..< off + siz]"

definition cut_bytes :: "(nat \<Rightarrow> byte) \<Rightarrow> nat \<Rightarrow> (nat \<Rightarrow> byte)" where
  "cut_bytes m siz = (\<lambda>i. if i < siz then m i else 0)"

text \<open>
  walwrite. The range is clipped first: its part in front of \<open>base\<close> and its part
  behind the size the transaction started with (or was truncated to) are not logged;
  \<open>wal_region\<close> is the clipped range, or nothing where the code returns early. The
  message is the magic byte, the offset, the size and the old bytes of the range.
\<close>

definition wal_region :: "FileCore \<Rightarrow> nat \<Rightarrow> nat \<Rightarrow> nat \<Rightarrow> (nat \<times> nat) option" where
  "wal_region core off0 siz0 base =
     (if off0 < base \<and> base - off0 \<ge> siz0 then None
      else
        let off = (if off0 < base then base else off0);
            siz1 = (if off0 < base then siz0 - (base - off0) else siz0)
        in if core_trmsiz core < off + 1 then None
           else
             let rem = core_trmsiz core - off
             in Some (off, if rem < siz1 then rem else siz1))"

definition walwrite :: "FileCore \<Rightarrow> nat \<Rightarrow> nat \<Rightarrow> nat \<Rightarrow> bool \<times> FileCore" where
  "walwrite core off0 siz0 base =
     (case wal_region core off0 siz0 base of
        None \<Rightarrow> (True, core)
      | Some (off, siz) \<Rightarrow>
          let rbuf = [WALMSGMAGIC] @ hton64 off @ hton64 siz @ load_bytes (core_map core) off siz;
              rsiz = 1 + 8 * 2 + siz;
              endp = core_walsiz core + rsiz
          in (True, core\<lparr>core_walmap := store_bytes (core_walmap core) (core_walsiz core) rbuf,
                           core_walfsiz := max (core_walfsiz core) endp,
                           core_walsiz := endp\<rparr>))"

text \<open>File::write and File::write_fast.\<close>

definition write_psiz :: "FileCore \<Rightarrow> nat \<Rightarrow> nat" where
  "write_psiz core endp =
     (if endp \<le> core_msiz core then
        (if endp > core_psiz core then
           let psiz = endp + core_psiz core div 2;
               diff = psiz mod core_pagesize core;
               psiz1 = (if diff > 0 then psiz + (core_pagesize core - diff) else psiz)
           in (if psiz1 > core_msiz core then core_msiz core else psiz1)
         else core_psiz core)
      else (if endp > core_psiz core then endp else core_psiz core))"

definition File_write :: "FileCore \<Rightarrow> nat \<Rightarrow> bytes \<Rightarrow> bool \<times> FileCore" where
  "File_write core off buf =
     (if length buf < 1 then (True, core)
      else
        let (ok, core1) = (if core_tran core then walwrite core off (length buf) (core_trbase core)
                           else (True, core))
        in if \<not> ok then (False, core1)
           else
             let endp = off + length buf
             in (True, core1\<lparr>core_map := store_bytes (core_map core1) off buf,
                               core_psiz := write_psiz core1 endp,
                               core_lsiz := (if endp > core_lsiz core1 then endp else core_lsiz core1)\<rparr>))"

definition File_write_fast :: "FileCore \<Rightarrow> nat \<Rightarrow> bytes \<Rightarrow> bool \<times> FileCore" where
  "File_write_fast core off buf =
     (let (ok, core1) = (if core_tran core then walwrite core off (length buf) (core_trbase core)
                         else (True, core))
      in if \<not> ok then (False, core1)
         else (True, core1\<lparr>core_map := store_bytes (core_map core1) off buf\<rparr>))"

text \<open>File::read checks the logical size; File::read_fast does not.\<close>

definition File_read :: "FileCore \<Rightarrow> nat \<Rightarrow> nat \<Rightarrow> bytes option" where
  "File_read core off siz =
     (if siz < 1 then Some []
      else if off + siz > core_lsiz core then None
      else Some (load_bytes (core_map core) off siz))"

definition File_read_fast :: "FileCore \<Rightarrow> nat \<Rightarrow> nat \<Rightarrow> bytes option" where
  "File_read_fast core off siz = Some (load_bytes (core_map core) off siz)"

definition File_size :: "FileCore \<Rightarrow> nat" where
  "File_size core = core_lsiz core"

text \<open>File::truncate: inside a transaction the bytes that are cut off are logged first.\<close>

definition File_truncate :: "FileCore \<Rightarrow> nat \<Rightarrow> bool \<times> FileCore" where
  "File_truncate core siz =
     (let (ok, core1) =
            (if core_tran core \<and> siz < core_trmsiz core then
               (let (ok1, c1) = walwrite core siz (core_trmsiz core - siz) (core_trbase core)
                in if ok1 then (True, c1\<lparr>core_trmsiz := siz\<rparr>) else (False, c1))
             else (True, core))
      in if \<not> ok then (False, core1)
         else (True, core1\<lparr>core_map := cut_bytes (core_map core1) siz,
                            core_lsiz := siz, core_psiz := siz\<rparr>))"

text \<open>File::begin_transaction stamps the log with the magic data and the logical size.\<close>

definition File_begin_transaction :: "FileCore \<Rightarrow> bool \<Rightarrow> nat \<Rightarrow> bool \<times> FileCore" where
  "File_begin_transaction core hard off =
     (let core1 = (if \<not> core_walfd core
                   then core\<lparr>core_walfd := True, core_walmap := (\<lambda>i. 0), core_walfsiz := WALMAPSIZ\<rparr>
                   else core);
          wp = WALMAGICDATA @ hton64 (core_lsiz core1)
      in (True, core1\<lparr>core_walmap := store_bytes (core_walmap core1) 0 wp,
                       core_walsiz := length wp,
                       core_tran := True,
                       core_trhard := hard,
                       core_trbase := off,
                       core_trmsiz := core_lsiz core1\<rparr>))"

text \<open>File::write_transaction logs a range explicitly, with no guard offset.\<close>

definition File_write_transaction :: "FileCore \<Rightarrow> nat \<Rightarrow> nat \<Rightarrow> bool \<times> FileCore" where
  "File_write_transaction core off siz = walwrite core off siz 0"

text \<open>
  myread on the descriptor of the log: a read that the file cannot fill fails. The
  position of the descriptor is the argument \<open>pos\<close>.
\<close>

definition myread :: "FileCore \<Rightarrow> nat \<Rightarrow> nat \<Rightarrow> bytes option" where
  "myread core pos siz =
     (if siz = 0 \<or> pos + siz \<le> core_walfsiz core
      then Some (load_bytes (core_walmap core) pos siz) else None)"

record WALMessage =
  msg_off :: nat
  msg_body :: bytes

text \<open>
  The first loop of walapply, which collects the messages of the log: \<open>pos\<close> is the
  position of the descriptor, \<open>rem\<close> the bytes that remain, and the result is the
  error flag, the position, the remainder and the messages in the order of the log.
  The offsets and sizes are int64\_t in the code: a number above INT64\_MAX is negative.
\<close>

function walread :: "FileCore \<Rightarrow> nat \<Rightarrow> nat \<Rightarrow> WALMessage list \<Rightarrow> bool \<times> nat \<times> nat \<times> WALMessage list" where
  "walread core pos rem msgs =
     (if rem \<ge> 17 then
        (case myread core pos 17 of
           None \<Rightarrow> (True, pos, rem, msgs)
         | Some buf \<Rightarrow>
             if hd buf = 0 then (False, pos + 17, 0, msgs)
             else if hd buf \<noteq> WALMSGMAGIC then (True, pos + 17, rem - 17, msgs)
             else if rem - 17 > 0 then
               (let off = ntoh64 (drop 1 buf);
                    siz = ntoh64 (drop 9 buf)
                in if off > 9223372036854775807 \<or> siz > 9223372036854775807
                   then (True, pos + 17, rem - 17, msgs)
                   else if rem - 17 < siz then (True, pos + 17, rem - 17, msgs)
                   else (case myread core (pos + 17) siz of
                           None \<Rightarrow> (True, pos + 17, rem - 17, msgs)
                         | Some rbuf \<Rightarrow>
                             walread core (pos + 17 + siz) (rem - 17 - siz)
                               (msgs @ [\<lparr>msg_off = off, msg_body = rbuf\<rparr>])))
             else walread core (pos + 17) (rem - 17) msgs)
      else (False, pos, rem, msgs))"
  by pat_completeness auto
termination
  by (relation "measure (\<lambda>(core, pos, rem, msgs). rem)") auto

declare walread.simps [simp del]

text \<open>The second loop of walapply: the messages are written back from the last to the
  first, \<open>i\<close> running from the number of messages down to 1.\<close>

fun walreplay :: "(nat \<Rightarrow> byte) \<Rightarrow> WALMessage list \<Rightarrow> nat \<Rightarrow> (nat \<Rightarrow> byte)" where
  "walreplay m msgs 0 = m"
| "walreplay m msgs (Suc i) =
     walreplay (store_bytes m (msg_off (msgs ! i)) (msg_body (msgs ! i))) msgs i"

text \<open>
  walapply. The ftruncate calls that only enlarge the physical file in front of the
  replay leave the content as it is; the last ftruncate sets both sizes to the size the
  log recorded, and fails for a negative size.
\<close>

definition walapply :: "FileCore \<Rightarrow> bool \<times> FileCore" where
  "walapply core =
     (let hsiz = length WALMAGICDATA + 8;
          rem = core_walfsiz core
      in if rem < hsiz then (False, core)
         else
           case myread core 0 hsiz of
             None \<Rightarrow> (False, core)
           | Some buf \<Rightarrow>
               if hd buf = 0 then (True, core)
               else if take (length WALMAGICDATA) buf \<noteq> WALMAGICDATA then (False, core)
               else
                 let osiz = ntoh64 (drop (length WALMAGICDATA) buf);
                     (err1, pos, rem1, msgs) = walread core hsiz (rem - hsiz) [];
                     err2 = (if rem1 \<noteq> 0
                             then (case myread core pos 1 of
                                     None \<Rightarrow> True
                                   | Some b \<Rightarrow> hd b \<noteq> 0)
                             else False);
                     m = walreplay (core_map core) msgs (length msgs)
                 in if osiz \<le> 9223372036854775807
                    then (\<not> (err1 \<or> err2),
                          core\<lparr>core_map := cut_bytes m osiz, core_lsiz := osiz, core_psiz := osiz\<rparr>)
                    else (False, core\<lparr>core_map := m\<rparr>))"

text \<open>File::end_transaction: an abort applies the log; the log is cleared unless that failed.\<close>

definition File_end_transaction :: "FileCore \<Rightarrow> bool \<Rightarrow> bool \<times> FileCore" where
  "File_end_transaction core commit =
     (let (ok, core1) = (if \<not> commit then walapply core else (True, core));
          err = \<not> ok;
          core2 =
            (if \<not> err then
               core1\<lparr>core_walmap :=
                        (let wm = store_bytes (core_walmap core1) 0
                                    (replicate (if core_walsiz core1 < WALMAPSIZ
                                                then core_walsiz core1 else WALMAPSIZ) 0)
                         in if core_walsiz core1 > WALMAPSIZ then cut_bytes wm WALMAPSIZ else wm),
                      core_walfsiz := (if core_walsiz core1 > WALMAPSIZ then WALMAPSIZ
                                       else core_walfsiz core1)\<rparr>
             else core1)
      in (\<not> err, core2\<lparr>core_tran := False\<rparr>))"

subsection \<open>Sequences of file operations inside a transaction\<close>

text \<open>
  The operations of the block file that change it, as the record store calls them
  between begin\_transaction and end\_transaction, and what each of them records in the
  log: the message walwrite appends, if any.
\<close>

datatype FileOp =
  OpWrite nat bytes
| OpWriteFast nat bytes
| OpTruncate nat
| OpWriteTransaction nat nat

fun apply_op :: "FileCore \<Rightarrow> FileOp \<Rightarrow> FileCore" where
  "apply_op core (OpWrite off buf) = snd (File_write core off buf)"
| "apply_op core (OpWriteFast off buf) = snd (File_write_fast core off buf)"
| "apply_op core (OpTruncate siz) = snd (File_truncate core siz)"
| "apply_op core (OpWriteTransaction off siz) = snd (File_write_transaction core off siz)"

fun apply_ops :: "FileCore \<Rightarrow> FileOp list \<Rightarrow> FileCore" where
  "apply_ops core [] = core"
| "apply_ops core (op # ops) = apply_ops (apply_op core op) ops"

definition wal_message :: "FileCore \<Rightarrow> nat \<Rightarrow> nat \<Rightarrow> nat \<Rightarrow> WALMessage list" where
  "wal_message core off0 siz0 base =
     (case wal_region core off0 siz0 base of
        None \<Rightarrow> []
      | Some (off, siz) \<Rightarrow> [\<lparr>msg_off = off, msg_body = load_bytes (core_map core) off siz\<rparr>])"

fun recorded_op :: "FileCore \<Rightarrow> FileOp \<Rightarrow> WALMessage list" where
  "recorded_op core (OpWrite off buf) =
     (if length buf < 1 \<or> \<not> core_tran core then []
      else wal_message core off (length buf) (core_trbase core))"
| "recorded_op core (OpWriteFast off buf) =
     (if \<not> core_tran core then [] else wal_message core off (length buf) (core_trbase core))"
| "recorded_op core (OpTruncate siz) =
     (if core_tran core \<and> siz < core_trmsiz core
      then wal_message core siz (core_trmsiz core - siz) (core_trbase core) else [])"
| "recorded_op core (OpWriteTransaction off siz) = wal_message core off siz 0"

fun recorded :: "FileCore \<Rightarrow> FileOp list \<Rightarrow> WALMessage list" where
  "recorded core [] = []"
| "recorded core (op # ops) = recorded_op core op @ recorded (apply_op core op) ops"

text \<open>A log with nothing in it: no descriptor yet, or the file of WALMAPSIZ zero bytes
  that end\_transaction leaves.\<close>

definition wal_clear :: "FileCore \<Rightarrow> bool" where
  "wal_clear core =
     (\<not> core_walfd core \<or> (core_walfsiz core = WALMAPSIZ \<and> core_walmap core = (\<lambda>i. 0)))"

text \<open>
  What a replay of messages from the last to the first does to a content, the bytes a
  message takes in the log, and the log that holds the header and the messages \<open>ms\<close>
  and nothing else.
\<close>

definition wal_step :: "WALMessage \<Rightarrow> (nat \<Rightarrow> byte) \<Rightarrow> (nat \<Rightarrow> byte)" where
  "wal_step msg m = store_bytes m (msg_off msg) (msg_body msg)"

definition wal_undo :: "WALMessage list \<Rightarrow> (nat \<Rightarrow> byte) \<Rightarrow> (nat \<Rightarrow> byte)" where
  "wal_undo ms m = foldr wal_step ms m"

definition wal_covered :: "WALMessage list \<Rightarrow> nat \<Rightarrow> bool" where
  "wal_covered ms i = (\<exists>msg\<in>set ms. msg_off msg \<le> i \<and> i < msg_off msg + length (msg_body msg))"

definition wal_enc :: "WALMessage \<Rightarrow> bytes" where
  "wal_enc msg = [WALMSGMAGIC] @ hton64 (msg_off msg) @ hton64 (length (msg_body msg)) @ msg_body msg"

definition wal_image :: "FileCore \<Rightarrow> nat \<Rightarrow> WALMessage list \<Rightarrow> bool" where
  "wal_image core osiz ms =
     (core_walfd core
      \<and> core_walsiz core = 12 + length (concat (map wal_enc ms))
      \<and> core_walfsiz core = max WALMAPSIZ (core_walsiz core)
      \<and> load_bytes (core_walmap core) 0 (core_walsiz core)
          = WALMAGICDATA @ hton64 osiz @ concat (map wal_enc ms)
      \<and> (\<forall>i\<ge>core_walsiz core. core_walmap core i = 0))"

text \<open>
  The invariant of an open transaction that began at the logical size \<open>osiz\<close>, with
  the guard offset \<open>base\<close> and the content \<open>m0\<close>: the log holds the messages
  \<open>ms\<close>, each inside the old size; a replay of \<open>ms\<close> gives the old content on the
  guarded range; and the bytes the file has been truncated by are in the log.
\<close>

definition wal_inv :: "FileCore \<Rightarrow> nat \<Rightarrow> nat \<Rightarrow> (nat \<Rightarrow> byte) \<Rightarrow> WALMessage list \<Rightarrow> bool" where
  "wal_inv core osiz base m0 ms =
     (wal_image core osiz ms \<and> core_tran core \<and> core_trbase core = base
      \<and> core_trmsiz core \<le> osiz
      \<and> list_all (\<lambda>msg. msg_off msg + length (msg_body msg) \<le> osiz) ms
      \<and> (\<forall>i. base \<le> i \<and> i < osiz \<longrightarrow>
             wal_undo ms (core_map core) i = m0 i
             \<and> (core_trmsiz core \<le> i \<longrightarrow> wal_covered ms i)))"

subsection \<open>Variable-length numbers\<close>

text \<open>
  Modelled from the spec: the key length and the value length of a record are stored
  "as variable-length integers"; writevarnum and readvarnum of kcutil.h are not among the
  sources. calc\_record\_size of the record store fixes the lengths (one byte below
  \<open>2 ^ 7\<close>, two below \<open>2 ^ 14\<close>, and so on): seven bits a byte. The model takes the
  most significant group first and sets the high bit on every byte but the last;
  readvarnum returns the number of bytes it read, 0 when the region ends too early.
\<close>

fun varnum_head :: "nat \<Rightarrow> bytes" where
  "varnum_head n = (if n = 0 then [] else varnum_head (n div 128) @ [of_nat (n mod 128 + 128)])"

declare varnum_head.simps [simp del]

definition writevarnum :: "nat \<Rightarrow> bytes" where
  "writevarnum num = varnum_head (num div 128) @ [of_nat (num mod 128)]"

fun readvarnum_loop :: "bytes \<Rightarrow> nat \<Rightarrow> nat \<Rightarrow> nat \<Rightarrow> nat \<times> nat" where
  "readvarnum_loop [] siz num step = (0, 0)"
| "readvarnum_loop (c # rp) siz num step =
     (if siz = 0 then (0, 0)
      else
        let num1 = (num * 128 + unat (c AND 0x7f)) mod 2 ^ 64
        in if c \<ge> 0x80 then readvarnum_loop rp (siz - 1) num1 (step + 1)
           else (step + 1, num1))"

definition readvarnum :: "bytes \<Rightarrow> nat \<Rightarrow> nat \<times> nat" where
  "readvarnum buf siz = readvarnum_loop buf siz 0 0"

section \<open>The hash database (kchashdb.h)\<close>

subsection \<open>State\<close>

datatype ErrorCode =
  SUCCESS | NOIMPL | INVALID | NOFILE | NOPERM | BROKEN | DUPREC | NOREC | LOGIC | SYSTEM | MISC

record FreeBlock =
  fb_off :: nat
  fb_rsiz :: nat

record Cursor =
  cur_off :: nat
  cur_end :: nat

text \<open>
  The compressor is an external collaborator: its two operations are fields of the
  object, a failed operation (a null pointer in the code) is \<open>None\<close>.
\<close>

record Compressor =
  compress :: "bytes \<Rightarrow> bytes option"
  decompress :: "bytes \<Rightarrow> bytes option"

text \<open>
  The members of the class HashDB. The hash function hashmurmur of kcutil.h is not among
  the sources; it is a parameter carried by the state, \<open>hashmurmur\<close>.
\<close>

record HashDB =
  error :: "ErrorCode \<times> string"
  omode :: nat
  writer :: bool
  autotran :: bool
  autosync :: bool
  dbfile :: FileCore
  fbp :: "FreeBlock list"
  curs :: "Cursor list"
  libver :: byte
  librev :: byte
  fmtver :: byte
  chksum :: byte
  dbtype :: byte
  apow :: nat
  fpow :: nat
  opts :: byte
  bnum :: nat
  flags :: byte
  flagopen :: bool
  count :: int
  lsiz :: nat
  psiz :: nat
  opaque :: bytes
  dfunit :: nat
  embcomp :: Compressor
  align :: nat
  fbpnum :: nat
  width :: nat
  linear :: bool
  compr :: "Compressor option"
  rhsiz :: nat
  boff :: nat
  roff :: nat
  dfcur :: nat
  frgcnt :: nat
  tran :: bool
  trhard :: bool
  trfbp :: "FreeBlock list"
  hashmurmur :: "bytes \<Rightarrow> 64 word"

definition FOPEN :: byte where "FOPEN = 1"
definition FFATAL :: byte where "FFATAL = 2"

definition TSMALL :: byte where "TSMALL = 1"
definition TLINEAR :: byte where "TLINEAR = 2"
definition TCOMPRESS :: byte where "TCOMPRESS = 4"

definition OREADER :: nat where "OREADER = 1"
definition OWRITER :: nat where "OWRITER = 2"
definition OCREATE :: nat where "OCREATE = 4"
definition OTRUNCATE :: nat where "OTRUNCATE = 8"
definition OAUTOTRAN :: nat where "OAUTOTRAN = 16"
definition OAUTOSYNC :: nat where "OAUTOSYNC = 32"
definition ONOLOCK :: nat where "ONOLOCK = 64"
definition OTRYLOCK :: nat where "OTRYLOCK = 128"
definition ONOREPAIR :: nat where "ONOREPAIR = 256"

definition HDBMOFFLIBVER :: nat where "HDBMOFFLIBVER = 4"
definition HDBMOFFLIBREV :: nat where "HDBMOFFLIBREV = 5"
definition HDBMOFFFMTVER :: nat where "HDBMOFFFMTVER = 6"
definition HDBMOFFCHKSUM :: nat where "HDBMOFFCHKSUM = 7"
definition HDBMOFFTYPE :: nat where "HDBMOFFTYPE = 8"
definition HDBMOFFAPOW :: nat where "HDBMOFFAPOW = 9"
definition HDBMOFFFPOW :: nat where "HDBMOFFFPOW = 10"
definition HDBMOFFOPTS :: nat where "HDBMOFFOPTS = 11"
definition HDBMOFFBNUM :: nat where "HDBMOFFBNUM = 16"
definition HDBMOFFFLAGS :: nat where "HDBMOFFFLAGS = 24"
definition HDBMOFFCOUNT :: nat where "HDBMOFFCOUNT = 32"
definition HDBMOFFSIZE :: nat where "HDBMOFFSIZE = 40"
definition HDBMOFFOPAQUE :: nat where "HDBMOFFOPAQUE = 48"
definition HDBHEADSIZ :: nat where "HDBHEADSIZ = 64"
definition HDBFBPWIDTH :: nat where "HDBFBPWIDTH = 6"
definition HDBWIDTHLARGE :: nat where "HDBWIDTHLARGE = 6"
definition HDBWIDTHSMALL :: nat where "HDBWIDTHSMALL = 4"
definition HDBRECBUFSIZ :: nat where "HDBRECBUFSIZ = 48"
definition HDBRECMAGIC :: byte where "HDBRECMAGIC = 0xcc"
definition HDBPADMAGIC :: byte where "HDBPADMAGIC = 0xee"
definition HDBFBMAGIC :: byte where "HDBFBMAGIC = 0xdd"
definition HDBMAGICDATA :: bytes where "HDBMAGICDATA = [0x4b, 0x43, 0x0a, 0x00]"
definition HDBDEFAPOW :: nat where "HDBDEFAPOW = 3"
definition HDBMAXAPOW :: nat where "HDBMAXAPOW = 15"
definition HDBDEFFPOW :: nat where "HDBDEFFPOW = 10"
definition HDBMAXFPOW :: nat where "HDBMAXFPOW = 20"
definition HDBDEFBNUM :: nat where "HDBDEFBNUM = 1048583"
definition TYPEHASH :: byte where "TYPEHASH = 0x11"
definition UINT16_MAX :: nat where "UINT16_MAX = 65535"
definition INT16_MAX :: nat where "INT16_MAX = 32767"
definition INT64_MAX :: nat where "INT64_MAX = 9223372036854775807"

subsection \<open>Errors\<close>

text \<open>HashDB::set_error(code, message): the fatal flag follows a BROKEN or a SYSTEM error.\<close>

definition set_error :: "HashDB \<Rightarrow> ErrorCode \<Rightarrow> string \<Rightarrow> HashDB" where
  "set_error db code message =
     (let db1 = db\<lparr>error := (code, message)\<rparr>
      in if code = BROKEN \<or> code = SYSTEM then db1\<lparr>flags := flags db1 OR FFATAL\<rparr> else db1)"

text \<open>
  The guard of HashDB::open in front of reorganize_file, on the flags that load_meta
  read from the header and on the mode of the open.
\<close>

definition open_repairs :: "byte \<Rightarrow> nat \<Rightarrow> bool" where
  "open_repairs fl mode =
     ((fl AND FOPEN \<noteq> 0 \<or> fl AND FFATAL \<noteq> 0) \<and> mode AND ONOREPAIR = 0 \<and> mode AND ONOLOCK = 0)"

subsection \<open>Meta data computed from the header\<close>

definition calc_meta :: "HashDB \<Rightarrow> HashDB" where
  "calc_meta db =
     (let align1 = 2 ^ apow db;
          fbpnum1 = (if fpow db > 0 then 2 ^ fpow db else 0);
          width1 = (if opts db AND TSMALL \<noteq> 0 then HDBWIDTHSMALL else HDBWIDTHLARGE);
          linear1 = (opts db AND TLINEAR \<noteq> 0);
          comp1 = (if opts db AND TCOMPRESS \<noteq> 0 then Some (embcomp db) else None);
          rhsiz1 = 2 + 1 * 2 + (if linear1 then width1 else width1 * 2);
          boff0 = HDBHEADSIZ + HDBFBPWIDTH * fbpnum1;
          boff1 = (if fbpnum1 > 0 then boff0 + width1 * 2 + 1 * 2 else boff0);
          roff0 = boff1 + width1 * bnum db;
          rem = roff0 mod align1;
          roff1 = (if rem > 0 then roff0 + (align1 - rem) else roff0)
      in db\<lparr>align := align1, fbpnum := fbpnum1, width := width1, linear := linear1,
              compr := comp1, rhsiz := rhsiz1, boff := boff1, roff := roff1,
              dfcur := roff1, frgcnt := 0, tran := False\<rparr>)"

subsection \<open>The free block pool\<close>

text \<open>
  The pool is a std::set ordered by FreeBlock::operator<; the model keeps its elements
  as the list an iteration from begin() to end() visits.
\<close>

definition fb_less :: "FreeBlock \<Rightarrow> FreeBlock \<Rightarrow> bool" where
  "fb_less a b = (fb_rsiz a < fb_rsiz b \<or> (fb_rsiz a = fb_rsiz b \<and> fb_off a > fb_off b))"

text \<open>std::set::insert: an element equivalent to one of the set is not inserted.\<close>

fun set_insert :: "FreeBlock \<Rightarrow> FreeBlock list \<Rightarrow> FreeBlock list" where
  "set_insert x [] = [x]"
| "set_insert x (y # ys) =
     (if fb_less x y then x # y # ys
      else if fb_less y x then y # set_insert x ys
      else y # ys)"

text \<open>std::set::upper_bound: the first element that the key is less than, and the rest.\<close>

fun upper_bound :: "FreeBlock \<Rightarrow> FreeBlock list \<Rightarrow> FreeBlock option" where
  "upper_bound x [] = None"
| "upper_bound x (y # ys) = (if fb_less x y then Some y else upper_bound x ys)"

fun set_erase :: "FreeBlock \<Rightarrow> FreeBlock list \<Rightarrow> FreeBlock list" where
  "set_erase x [] = []"
| "set_erase x (y # ys) = (if x = y then ys else y # set_erase x ys)"

definition escape_cursor :: "nat \<Rightarrow> nat \<Rightarrow> Cursor \<Rightarrow> Cursor" where
  "escape_cursor off dest cur =
     (let cur1 = (if cur_end cur = off
                  then (let c = cur\<lparr>cur_end := dest\<rparr>
                        in if cur_off c \<ge> cur_end c then c\<lparr>cur_off := 0\<rparr> else c)
                  else cur)
      in if cur_off cur1 = off
         then (let c = cur1\<lparr>cur_off := dest\<rparr>
               in if cur_off c \<ge> cur_end c then c\<lparr>cur_off := 0\<rparr> else c)
         else cur1)"

definition escape_cursors :: "HashDB \<Rightarrow> nat \<Rightarrow> nat \<Rightarrow> HashDB" where
  "escape_cursors db off dest = db\<lparr>curs := map (escape_cursor off dest) (curs db)\<rparr>"

definition insert_free_block :: "HashDB \<Rightarrow> nat \<Rightarrow> nat \<Rightarrow> HashDB" where
  "insert_free_block db off rsiz =
     (let db1 = escape_cursors db off (off + rsiz)
      in if fbpnum db1 < 1 then db1
         else if length (fbp db1) \<ge> fbpnum db1 then
           (case fbp db1 of
              [] \<Rightarrow> db1\<lparr>fbp := set_insert \<lparr>fb_off = off, fb_rsiz = rsiz\<rparr> (fbp db1)\<rparr>
            | it # rest \<Rightarrow>
                if rsiz \<le> fb_rsiz it then db1
                else db1\<lparr>fbp := set_insert \<lparr>fb_off = off, fb_rsiz = rsiz\<rparr> rest\<rparr>)
         else db1\<lparr>fbp := set_insert \<lparr>fb_off = off, fb_rsiz = rsiz\<rparr> (fbp db1)\<rparr>)"

definition fetch_free_block :: "HashDB \<Rightarrow> nat \<Rightarrow> FreeBlock option \<times> HashDB" where
  "fetch_free_block db rsiz =
     (if fbpnum db < 1 then (None, db)
      else
        case upper_bound \<lparr>fb_off = INT64_MAX, fb_rsiz = rsiz\<rparr> (fbp db) of
          None \<Rightarrow> (None, db)
        | Some it \<Rightarrow>
            (Some it, escape_cursors (db\<lparr>fbp := set_erase it (fbp db)\<rparr>)
                                     (fb_off it) (fb_off it + fb_rsiz it)))"

subsection \<open>The header\<close>

text \<open>An int64\_t read from eight bytes, and written to them.\<close>

definition to_int64 :: "nat \<Rightarrow> int" where
  "to_int64 n = (if n mod 2 ^ 64 \<ge> 2 ^ 63 then int (n mod 2 ^ 64) - 2 ^ 64 else int (n mod 2 ^ 64))"

definition of_int64 :: "int \<Rightarrow> nat" where
  "of_int64 i = nat (i mod 2 ^ 64)"

text \<open>
  dump\_meta: the header of 64 bytes, field after field at the offsets HDBMOFF...: the
  magic data at 0, the versions at 4 to 6, the checksum at 7, the type at 8, the powers at
  9 and 10, the options at 11, the bucket number at 16, the flags at 24, the record count
  at 32, the size at 40, the opaque data at 48; the bytes between are zero.
\<close>

definition meta_head :: "HashDB \<Rightarrow> bytes" where
  "meta_head db =
     HDBMAGICDATA
     @ [libver db, librev db, fmtver db, chksum db, dbtype db, of_nat (apow db), of_nat (fpow db),
        opts db]
     @ replicate 4 0
     @ hton64 (bnum db)
     @ [if \<not> flagopen db then flags db AND NOT FOPEN else flags db] @ replicate 7 0
     @ hton64 (of_int64 (count db))
     @ hton64 (lsiz db)
     @ take 16 (opaque db @ replicate 16 0)"

definition dump_meta :: "HashDB \<Rightarrow> bool \<times> HashDB" where
  "dump_meta db =
     (let (ok, f) = File_write (dbfile db) 0 (meta_head db)
      in if \<not> ok then (False, set_error (db\<lparr>dbfile := f\<rparr>) SYSTEM ''write failed'')
         else (True, db\<lparr>dbfile := f\<rparr>))"

definition dump_auto_meta :: "HashDB \<Rightarrow> bool \<times> HashDB" where
  "dump_auto_meta db =
     (let head = hton64 (of_int64 (count db)) @ hton64 (lsiz db);
          (ok, f) = File_write_fast (dbfile db) HDBMOFFCOUNT head
      in if \<not> ok then (False, set_error (db\<lparr>dbfile := f\<rparr>) SYSTEM ''write failed'')
         else (True, db\<lparr>dbfile := f\<rparr>))"

definition load_meta :: "HashDB \<Rightarrow> bool \<times> HashDB" where
  "load_meta db =
     (if File_size (dbfile db) < HDBHEADSIZ
      then (False, set_error db INVALID ''missing magic data of the file'')
      else
        case File_read (dbfile db) 0 HDBHEADSIZ of
          None \<Rightarrow> (False, set_error db SYSTEM ''read failed'')
        | Some head \<Rightarrow>
            if take (length HDBMAGICDATA) head \<noteq> HDBMAGICDATA
            then (False, set_error db INVALID ''invalid magic data of the file'')
            else (True,
                  db\<lparr>libver := head ! HDBMOFFLIBVER, librev := head ! HDBMOFFLIBREV,
                     fmtver := head ! HDBMOFFFMTVER, chksum := head ! HDBMOFFCHKSUM,
                     dbtype := head ! HDBMOFFTYPE, apow := unat (head ! HDBMOFFAPOW),
                     fpow := unat (head ! HDBMOFFFPOW), opts := head ! HDBMOFFOPTS,
                     bnum := ntoh64 (drop HDBMOFFBNUM head),
                     flags := head ! HDBMOFFFLAGS,
                     flagopen := (head ! HDBMOFFFLAGS AND FOPEN \<noteq> 0),
                     count := to_int64 (ntoh64 (drop HDBMOFFCOUNT head)),
                     lsiz := ntoh64 (drop HDBMOFFSIZE head),
                     psiz := ntoh64 (drop HDBMOFFSIZE head),
                     opaque := take 16 (drop HDBMOFFOPAQUE head)\<rparr>))"

subsection \<open>Transactions\<close>

definition disable_cursors :: "HashDB \<Rightarrow> HashDB" where
  "disable_cursors db = db\<lparr>curs := map (\<lambda>cur. cur\<lparr>cur_off := 0\<rparr>) (curs db)\<rparr>"

text \<open>
  The loop of begin\_transaction\_impl over the pool: the iterator starts at end() and
  steps back at most \<open>cnt\<close> times; \<open>rest\<close> holds the elements in front of it.
\<close>

fun escape_fbp :: "nat \<Rightarrow> FreeBlock list \<Rightarrow> FreeBlock list \<Rightarrow> FreeBlock list" where
  "escape_fbp 0 rest tr = tr"
| "escape_fbp (Suc cnt) rest tr =
     (if rest = [] then tr else escape_fbp cnt (butlast rest) (set_insert (last rest) tr))"

definition begin_transaction_impl :: "HashDB \<Rightarrow> bool \<times> HashDB" where
  "begin_transaction_impl db =
     (let (ok1, db1) = dump_meta db
      in if \<not> ok1 then (False, db1)
         else
           let (ok2, f2) = File_begin_transaction (dbfile db1) (trhard db1) (boff db1)
           in if \<not> ok2 then (False, set_error (db1\<lparr>dbfile := f2\<rparr>) SYSTEM ''begin failed'')
              else
                let (ok3, f3) = File_write_transaction f2 HDBMOFFBNUM (HDBHEADSIZ - HDBMOFFBNUM)
                in if \<not> ok3
                   then (False, (set_error (db1\<lparr>dbfile := f3\<rparr>) SYSTEM ''write failed'')
                                  \<lparr>dbfile := snd (File_end_transaction f3 False)\<rparr>)
                   else
                     let db3 = db1\<lparr>dbfile := f3\<rparr>
                     in (True,
                         if fbpnum db3 > 0
                         then db3\<lparr>trfbp := escape_fbp (fpow db3 * 2 + 1) (fbp db3) (trfbp db3)\<rparr>
                         else db3))"

definition begin_auto_transaction :: "HashDB \<Rightarrow> bool \<times> HashDB" where
  "begin_auto_transaction db =
     (let (ok2, f2) = File_begin_transaction (dbfile db) (autosync db) (boff db)
      in if \<not> ok2 then (False, set_error (db\<lparr>dbfile := f2\<rparr>) SYSTEM ''begin failed'')
         else
           let (ok3, f3) = File_write_transaction f2 HDBMOFFCOUNT (HDBMOFFOPAQUE - HDBMOFFCOUNT)
           in if \<not> ok3
              then (False, (set_error (db\<lparr>dbfile := f3\<rparr>) SYSTEM ''write failed'')
                             \<lparr>dbfile := snd (File_end_transaction f3 False)\<rparr>)
              else (True, db\<lparr>dbfile := f3\<rparr>))"

definition commit_transaction :: "HashDB \<Rightarrow> bool \<times> HashDB" where
  "commit_transaction db =
     (let (ok1, db1) = dump_meta db;
          (ok2, f2) = File_end_transaction (dbfile db1) True;
          db2 = (if \<not> ok2 then set_error (db1\<lparr>dbfile := f2\<rparr>) SYSTEM ''end failed''
                 else db1\<lparr>dbfile := f2\<rparr>)
      in (ok1 \<and> ok2, db2\<lparr>trfbp := []\<rparr>))"

definition commit_auto_transaction :: "HashDB \<Rightarrow> bool \<times> HashDB" where
  "commit_auto_transaction db =
     (let (ok1, db1) = dump_auto_meta db;
          (ok2, f2) = File_end_transaction (dbfile db1) True;
          db2 = (if \<not> ok2 then set_error (db1\<lparr>dbfile := f2\<rparr>) SYSTEM ''end failed''
                 else db1\<lparr>dbfile := f2\<rparr>)
      in (ok1 \<and> ok2, db2))"

definition abort_transaction :: "HashDB \<Rightarrow> bool \<times> HashDB" where
  "abort_transaction db =
     (let (ok1, f1) = File_end_transaction (dbfile db) False;
          db1 = (if \<not> ok1 then set_error (db\<lparr>dbfile := f1\<rparr>) SYSTEM ''end failed''
                 else db\<lparr>dbfile := f1\<rparr>);
          (ok2, db2) = load_meta db1;
          db3 = disable_cursors (calc_meta db2)
      in (ok1 \<and> ok2, db3\<lparr>fbp := trfbp db3, trfbp := []\<rparr>))"

definition abort_auto_transaction :: "HashDB \<Rightarrow> bool \<times> HashDB" where
  "abort_auto_transaction db =
     (let (ok1, f1) = File_end_transaction (dbfile db) False;
          db1 = (if \<not> ok1 then set_error (db\<lparr>dbfile := f1\<rparr>) SYSTEM ''end failed''
                 else db\<lparr>dbfile := f1\<rparr>);
          (ok2, db2) = load_meta db1;
          db3 = disable_cursors (calc_meta db2)
      in (ok1 \<and> ok2, db3\<lparr>fbp := []\<rparr>))"

text \<open>
  HashDB::begin\_transaction\_try and HashDB::end\_transaction. (HashDB::begin\_transaction
  differs in that it sleeps and tries again while another transaction is open.)
\<close>

definition begin_transaction_try :: "HashDB \<Rightarrow> bool \<Rightarrow> bool \<times> HashDB" where
  "begin_transaction_try db hard =
     (if omode db = 0 then (False, set_error db INVALID ''not opened'')
      else if \<not> writer db then (False, set_error db NOPERM ''permission denied'')
      else if tran db then (False, set_error db LOGIC ''competition avoided'')
      else
        let (ok, db1) = begin_transaction_impl (db\<lparr>trhard := hard\<rparr>)
        in if \<not> ok then (False, db1) else (True, db1\<lparr>tran := True\<rparr>))"

definition end_transaction :: "HashDB \<Rightarrow> bool \<Rightarrow> bool \<times> HashDB" where
  "end_transaction db commit =
     (if omode db = 0 then (False, set_error db INVALID ''not opened'')
      else if \<not> tran db then (False, set_error db INVALID ''not in transaction'')
      else
        let (ok, db1) = (if commit then commit_transaction db else abort_transaction db)
        in (ok, db1\<lparr>tran := False\<rparr>))"

subsection \<open>Records in the file\<close>

text \<open>
  The structure Record. The pointers kbuf, vbuf and bbuf are the bytes they point to, a
  null pointer is \<open>None\<close>. Offsets and sizes are natural numbers: int64\_t and size\_t
  without overflow.
\<close>

record Record =
  r_off :: nat
  r_rsiz :: nat
  r_psiz :: nat
  r_ksiz :: nat
  r_vsiz :: nat
  r_left :: nat
  r_right :: nat
  r_kbuf :: "bytes option"
  r_vbuf :: "bytes option"
  r_boff :: nat
  r_bbuf :: "bytes option"

definition hash_record :: "HashDB \<Rightarrow> bytes \<Rightarrow> 64 word" where
  "hash_record db kbuf = hashmurmur db kbuf"

definition fold_hash :: "64 word \<Rightarrow> 32 word" where
  "fold_hash hash =
     ucast ((drop_bit 48 (hash AND 0xffff000000000000) OR drop_bit 16 (hash AND 0x0000ffff00000000))
            XOR (push_bit 16 (hash AND 0x000000000000ffff) OR drop_bit 16 (hash AND 0x00000000ffff0000)))"

text \<open>memcmp of the C library: the difference of the first two bytes that differ.\<close>

fun memcmp :: "bytes \<Rightarrow> bytes \<Rightarrow> int" where
  "memcmp [] bs = 0"
| "memcmp (a # as) [] = 0"
| "memcmp (a # as) (b # bs) = (if a = b then memcmp as bs else int (unat a) - int (unat b))"

definition compare_keys :: "bytes \<Rightarrow> bytes \<Rightarrow> int" where
  "compare_keys abuf bbuf =
     (if length abuf \<noteq> length bbuf then int (length abuf) - int (length bbuf)
      else memcmp abuf bbuf)"

definition set_bucket :: "HashDB \<Rightarrow> nat \<Rightarrow> nat \<Rightarrow> bool \<times> HashDB" where
  "set_bucket db bidx off =
     (let buf = writefixnum (drop_bit (apow db) off) (width db);
          (ok, f) = File_write_fast (dbfile db) (boff db + bidx * width db) buf
      in if \<not> ok then (False, set_error (db\<lparr>dbfile := f\<rparr>) SYSTEM ''write failed'')
         else (True, db\<lparr>dbfile := f\<rparr>))"

text \<open>get\_bucket returns \<open>- 1\<close> on failure: here \<open>None\<close>.\<close>

definition get_bucket :: "HashDB \<Rightarrow> nat \<Rightarrow> nat option \<times> HashDB" where
  "get_bucket db bidx =
     (case File_read_fast (dbfile db) (boff db + bidx * width db) (width db) of
        None \<Rightarrow> (None, set_error db SYSTEM ''read failed'')
      | Some buf \<Rightarrow> (Some (push_bit (apow db) (readfixnum buf (width db))), db))"

definition set_chain :: "HashDB \<Rightarrow> nat \<Rightarrow> nat \<Rightarrow> bool \<times> HashDB" where
  "set_chain db entoff off =
     (let buf = writefixnum (drop_bit (apow db) off) (width db);
          (ok, f) = File_write_fast (dbfile db) entoff buf
      in if \<not> ok then (False, set_error (db\<lparr>dbfile := f\<rparr>) SYSTEM ''write failed'')
         else (True, db\<lparr>dbfile := f\<rparr>))"

text \<open>read\_record, the branch of a free block: the two magic bytes, the size, two pad bytes.\<close>

definition read_free_block :: "HashDB \<Rightarrow> nat \<Rightarrow> bytes \<Rightarrow> Record option \<times> HashDB" where
  "read_free_block db off rbuf =
     (if rbuf ! 0 \<noteq> HDBFBMAGIC \<or> rbuf ! 1 \<noteq> HDBFBMAGIC
      then (None, set_error db BROKEN ''invalid magic data of a free block'')
      else
        let rsiz = push_bit (apow db) (readfixnum (drop 2 rbuf) (width db))
        in if rbuf ! (2 + width db) \<noteq> HDBPADMAGIC \<or> rbuf ! (2 + width db + 1) \<noteq> HDBPADMAGIC
           then (None, set_error db BROKEN ''invalid magic data of a free block'')
           else if rsiz < rhsiz db
           then (None, set_error db BROKEN ''invalid size of a free block'')
           else (Some \<lparr>r_off = off, r_rsiz = rsiz, r_psiz = UINT16_MAX, r_ksiz = 0, r_vsiz = 0,
                       r_left = 0, r_right = 0, r_kbuf = None, r_vbuf = None, r_boff = 0,
                       r_bbuf = None\<rparr>, db))"

definition read_record_body :: "HashDB \<Rightarrow> Record \<Rightarrow> Record option \<times> HashDB" where
  "read_record_body db rec =
     (let bsiz = r_ksiz rec + r_vsiz rec
      in case File_read_fast (dbfile db) (r_boff rec) bsiz of
           None \<Rightarrow> (None, set_error db SYSTEM ''read failed'')
         | Some bbuf \<Rightarrow>
             (Some (rec\<lparr>r_bbuf := Some bbuf, r_kbuf := Some (take (r_ksiz rec) bbuf),
                        r_vbuf := Some (take (r_vsiz rec) (drop (r_ksiz rec) bbuf))\<rparr>), db))"

text \<open>
  read\_record, the branch of a record: \<open>psiz1\<close> is the padding size read from the first
  two bytes, \<open>rbuf\<close> the bytes read at the offset, 48 of them or, near the end of the
  file, as many as a record header.
\<close>

definition read_record_fields :: "HashDB \<Rightarrow> nat \<Rightarrow> bytes \<Rightarrow> nat \<Rightarrow> Record option \<times> HashDB" where
  "read_record_fields db off rbuf psiz1 =
     (let rp1 = 2;
          left1 = push_bit (apow db) (readfixnum (drop rp1 rbuf) (width db));
          rp2 = rp1 + width db;
          right1 = (if linear db then 0
                    else push_bit (apow db) (readfixnum (drop rp2 rbuf) (width db)));
          rp3 = (if linear db then rp2 else rp2 + width db);
          (step1, ksiz1) = readvarnum (drop rp3 rbuf) (length rbuf - rp3)
      in if step1 < 1 then (None, set_error db BROKEN ''invalid key length'')
         else
           let rp4 = rp3 + step1;
               (step2, vsiz1) = readvarnum (drop rp4 rbuf) (length rbuf - rp4)
           in if step2 < 1 then (None, set_error db BROKEN ''invalid value length'')
              else
                let rp5 = rp4 + step2;
                    rsiz5 = length rbuf - rp5;
                    rec = \<lparr>r_off = off, r_rsiz = rp5 + ksiz1 + vsiz1 + psiz1, r_psiz = psiz1,
                           r_ksiz = ksiz1, r_vsiz = vsiz1, r_left = left1, r_right = right1,
                           r_kbuf = None, r_vbuf = None, r_boff = off + rp5, r_bbuf = None\<rparr>
                in if rsiz5 \<ge> ksiz1 then
                     (let rec1 = rec\<lparr>r_kbuf := Some (take ksiz1 (drop rp5 rbuf))\<rparr>;
                          rp6 = rp5 + ksiz1;
                          rsiz6 = rsiz5 - ksiz1
                      in if rsiz6 \<ge> vsiz1 then
                           (let rec2 = rec1\<lparr>r_vbuf := Some (take vsiz1 (drop rp6 rbuf))\<rparr>
                            in if psiz1 > 0 \<and> rsiz6 - vsiz1 > 0
                                  \<and> rbuf ! (rp6 + vsiz1) \<noteq> HDBPADMAGIC
                               then (None, set_error db BROKEN ''invalid magic data of a record'')
                               else (Some rec2, db))
                         else (Some rec1, db))
                   else read_record_body db rec)"

definition read_record :: "HashDB \<Rightarrow> nat \<Rightarrow> Record option \<times> HashDB" where
  "read_record db off =
     (if off < roff db then (None, set_error db BROKEN ''invalid record offset'')
      else
        let far = (off > psiz db \<or> psiz db - off > HDBRECBUFSIZ)
        in if \<not> far \<and> psiz db - off < rhsiz db
           then (None, set_error db BROKEN ''too short record region'')
           else
             case File_read_fast (dbfile db) off (if far then HDBRECBUFSIZ else rhsiz db) of
               None \<Rightarrow> (None, set_error db SYSTEM ''read failed'')
             | Some rbuf \<Rightarrow>
                 if rbuf ! 0 = HDBRECMAGIC
                 then read_record_fields db off rbuf (ntoh16 [0, rbuf ! 1])
                 else if rbuf ! 0 \<ge> 0x80 then read_free_block db off rbuf
                 else if rbuf ! 0 = 0 then (None, set_error db BROKEN ''nullified region'')
                 else read_record_fields db off rbuf (ntoh16 rbuf))"

text \<open>
  write\_record. The buffer takes the padding size (its first byte replaced by the record
  magic when the size is below 256), the children, the two lengths, the key, the value
  and the padding, which begins with the pad magic; \<open>rec->rsiz\<close> bytes of it are
  written. A record that is written has its key and its value.
\<close>

definition record_bytes :: "HashDB \<Rightarrow> Record \<Rightarrow> bytes" where
  "record_bytes db rec =
     (let snum = hton16 (r_psiz rec);
          head = (if r_psiz rec < 0x100 then HDBRECMAGIC # tl snum else snum)
      in head
         @ writefixnum (drop_bit (apow db) (r_left rec)) (width db)
         @ (if \<not> linear db then writefixnum (drop_bit (apow db) (r_right rec)) (width db) else [])
         @ writevarnum (r_ksiz rec) @ writevarnum (r_vsiz rec)
         @ take (r_ksiz rec) (case r_kbuf rec of None \<Rightarrow> [] | Some k \<Rightarrow> k)
         @ take (r_vsiz rec) (case r_vbuf rec of None \<Rightarrow> [] | Some v \<Rightarrow> v)
         @ (if r_psiz rec > 0 then HDBPADMAGIC # replicate (r_psiz rec - 1) 0 else []))"

definition write_record :: "HashDB \<Rightarrow> Record \<Rightarrow> bool \<Rightarrow> bool \<times> HashDB" where
  "write_record db rec over =
     (let rbuf = take (r_rsiz rec) (record_bytes db rec @ replicate (r_rsiz rec) 0);
          (ok, f) = (if over then File_write_fast (dbfile db) (r_off rec) rbuf
                     else File_write (dbfile db) (r_off rec) rbuf)
      in if \<not> ok then (False, set_error (db\<lparr>dbfile := f\<rparr>) SYSTEM ''write failed'')
         else (True, db\<lparr>dbfile := f\<rparr>))"

definition write_free_block :: "HashDB \<Rightarrow> nat \<Rightarrow> nat \<Rightarrow> bool \<times> HashDB" where
  "write_free_block db off rsiz =
     (let rbuf = [HDBFBMAGIC, HDBFBMAGIC] @ writefixnum (drop_bit (apow db) rsiz) (width db)
                 @ [HDBPADMAGIC, HDBPADMAGIC];
          (ok, f) = File_write_fast (dbfile db) off rbuf
      in if \<not> ok then (False, set_error (db\<lparr>dbfile := f\<rparr>) SYSTEM ''write failed'')
         else (True, db\<lparr>dbfile := f\<rparr>))"

definition adjust_record :: "HashDB \<Rightarrow> Record \<Rightarrow> bool \<times> Record \<times> HashDB" where
  "adjust_record db rec =
     (if r_psiz rec > INT16_MAX \<or> r_psiz rec > r_rsiz rec div 2 then
        (let nsiz = push_bit (apow db) (drop_bit (apow db) (r_psiz rec))
         in if nsiz < rhsiz db then (True, rec, db)
            else
              let rec1 = rec\<lparr>r_rsiz := r_rsiz rec - nsiz, r_psiz := r_psiz rec - nsiz\<rparr>;
                  noff = r_off rec1 + r_rsiz rec1;
                  (ok, db1) = write_free_block db noff nsiz
              in if \<not> ok then (False, rec1, db1)
                 else (True, rec1, insert_free_block db1 noff nsiz))
      else (True, rec, db))"

definition varnum_size :: "nat \<Rightarrow> nat" where
  "varnum_size n =
     (if n < 2 ^ 7 then 1 else if n < 2 ^ 14 then 2 else if n < 2 ^ 21 then 3
      else if n < 2 ^ 28 then 4 else 5)"

definition calc_record_size :: "HashDB \<Rightarrow> nat \<Rightarrow> nat \<Rightarrow> nat" where
  "calc_record_size db ksiz vsiz =
     2 + width db + (if \<not> linear db then width db else 0)
     + varnum_size ksiz + varnum_size vsiz + ksiz + vsiz"

definition calc_record_padding :: "HashDB \<Rightarrow> nat \<Rightarrow> nat" where
  "calc_record_padding db rsiz =
     (let diff = rsiz AND (align db - 1) in if diff > 0 then align db - diff else 0)"

subsection \<open>Visiting a record\<close>

text \<open>
  A visitor returns NOP, REMOVE or the bytes that replace the value. The object of a
  visitor may change when it visits (the found value, a flag): its state \<open>'v\<close> is
  passed through.
\<close>

datatype VisitResult = NOP | REMOVE | Replace bytes

record 'v Visitor =
  visit_full :: "'v \<Rightarrow> bytes \<Rightarrow> bytes \<Rightarrow> VisitResult \<times> 'v"
  visit_empty :: "'v \<Rightarrow> bytes \<Rightarrow> VisitResult \<times> 'v"

definition File_synchronize :: "FileCore \<Rightarrow> bool \<Rightarrow> bool \<times> FileCore" where
  "File_synchronize core hard = (True, core)"

definition synchronize_meta :: "HashDB \<Rightarrow> bool \<times> HashDB" where
  "synchronize_meta db =
     (let (ok1, db1) = dump_meta db;
          (ok2, f2) = File_synchronize (dbfile db1) True;
          db2 = (if \<not> ok2 then set_error (db1\<lparr>dbfile := f2\<rparr>) SYSTEM ''synchronize failed''
                 else db1\<lparr>dbfile := f2\<rparr>)
      in (ok1 \<and> ok2, db2))"

text \<open>
  The steps accept\_impl repeats around every change: the implicit transaction is begun
  when the database is in auto transaction mode and no transaction is open; it is
  aborted when a step fails; at the end it is committed, or the meta data are
  synchronized in auto synchronization mode.
\<close>

definition auto_begin :: "HashDB \<Rightarrow> bool \<times> bool \<times> HashDB" where
  "auto_begin db =
     (if autotran db \<and> \<not> tran db
      then (let (ok, db1) = begin_auto_transaction db in (ok, ok, db1))
      else (True, False, db))"

definition auto_abort :: "HashDB \<Rightarrow> bool \<Rightarrow> HashDB" where
  "auto_abort db atran = (if atran then snd (abort_auto_transaction db) else db)"

definition auto_finish :: "HashDB \<Rightarrow> bool \<Rightarrow> bool \<times> HashDB" where
  "auto_finish db atran =
     (if atran then commit_auto_transaction db
      else if autosync db then synchronize_meta db
      else (True, db))"

text \<open>
  cut\_chain. The loop walks from the left child of the removed record along the right
  children to the last one; \<open>fuel\<close> bounds its steps, \<open>None\<close> is a walk that has not
  ended within them.
\<close>

fun cut_chain_walk :: "nat \<Rightarrow> HashDB \<Rightarrow> nat \<Rightarrow> nat \<Rightarrow> ((Record \<times> nat) option \<times> HashDB) option" where
  "cut_chain_walk 0 db off pentoff = None"
| "cut_chain_walk (Suc fuel) db off pentoff =
     (case read_record db off of
        (None, db1) \<Rightarrow> Some (None, db1)
      | (Some prec, db1) \<Rightarrow>
          if r_psiz prec = UINT16_MAX
          then Some (None, set_error db1 BROKEN ''free block in the chain'')
          else if r_right prec < 1 then Some (Some (prec, pentoff), db1)
          else cut_chain_walk fuel db1 (r_right prec) (r_off prec + 2 + width db1))"

definition set_chain_or_bucket :: "HashDB \<Rightarrow> nat \<Rightarrow> nat \<Rightarrow> nat \<Rightarrow> bool \<times> HashDB" where
  "set_chain_or_bucket db bidx entoff off =
     (if entoff > 0 then set_chain db entoff off else set_bucket db bidx off)"

definition cut_chain :: "nat \<Rightarrow> HashDB \<Rightarrow> Record \<Rightarrow> nat \<Rightarrow> nat \<Rightarrow> (bool \<times> HashDB) option" where
  "cut_chain fuel db rec bidx entoff =
     (if r_left rec > 0 \<and> r_right rec < 1
      then Some (set_chain_or_bucket db bidx entoff (r_left rec))
      else if r_left rec < 1 \<and> r_right rec > 0
      then Some (set_chain_or_bucket db bidx entoff (r_right rec))
      else if r_left rec < 1 then Some (set_chain_or_bucket db bidx entoff 0)
      else
        case read_record db (r_left rec) of
          (None, db1) \<Rightarrow> Some (False, db1)
        | (Some prec, db1) \<Rightarrow>
            if r_psiz prec = UINT16_MAX
            then Some (False, set_error db1 BROKEN ''free block in the chain'')
            else if r_right prec > 0 then
              (case cut_chain_walk fuel db1 (r_right prec) (r_off prec + 2 + width db1) of
                 None \<Rightarrow> None
               | Some (None, db2) \<Rightarrow> Some (False, db2)
               | Some (Some (prec2, pentoff), db2) \<Rightarrow>
                   let off = r_off prec2;
                       (ok3, db3) = set_chain db2 pentoff (r_left prec2)
                   in if \<not> ok3 then Some (False, db3)
                      else
                        let (ok4, db4) = set_chain db3 (off + 2) (r_left rec)
                        in if \<not> ok4 then Some (False, db4)
                           else
                             let (ok5, db5) = set_chain db4 (off + 2 + width db4) (r_right rec)
                             in if \<not> ok5 then Some (False, db5)
                                else Some (set_chain_or_bucket db5 bidx entoff off))
            else
              (let (ok3, db3) = set_chain db1 (r_off prec + 2 + width db1) (r_right rec)
               in if \<not> ok3 then Some (False, db3)
                  else Some (set_chain_or_bucket db3 bidx entoff (r_off prec))))"

text \<open>
  The part that the two branches of accept\_impl which write a record to a new place
  share: the record of \<open>rsiz\<close> bytes takes a block of the pool (unless \<open>usefbp\<close> is
  false, for an iterator) or the end of the file, is written, and the slot \<open>entoff\<close> of
  its parent, or the bucket, is set to its offset.
\<close>

definition write_new_record ::
    "HashDB \<Rightarrow> Record \<Rightarrow> nat \<Rightarrow> bool \<Rightarrow> nat \<Rightarrow> nat \<Rightarrow> bool \<Rightarrow> bool \<times> HashDB" where
  "write_new_record db rec rsiz usefbp bidx entoff atran =
     (let (fbo, db1) = (if usefbp then fetch_free_block db (r_rsiz rec) else (None, db));
          (ok2, over, rec2, db2) =
            (case fbo of
               Some fb \<Rightarrow>
                 (let rec1 = rec\<lparr>r_off := fb_off fb, r_rsiz := fb_rsiz fb,
                                  r_psiz := fb_rsiz fb - rsiz\<rparr>;
                      (ok, rec2, db2) = adjust_record db1 rec1
                  in (ok, True, rec2, db2))
             | None \<Rightarrow>
                 (True, False, rec\<lparr>r_off := lsiz db1\<rparr>, db1\<lparr>lsiz := lsiz db1 + r_rsiz rec\<rparr>))
      in if \<not> ok2 then (False, auto_abort db2 atran)
         else
           let (ok3, db3) = write_record db2 rec2 over
           in if \<not> ok3 then (False, auto_abort db3 atran)
              else
                let db4 = (if \<not> over \<and> psiz db3 < r_off rec2 + r_rsiz rec2
                           then db3\<lparr>psiz := r_off rec2 + r_rsiz rec2\<rparr> else db3);
                    (ok5, db5) = set_chain_or_bucket db4 bidx entoff (r_off rec2)
                in if \<not> ok5 then (False, auto_abort db5 atran) else (True, db5))"

text \<open>accept\_impl, the branch of the record with the key: the visitor decides.\<close>

definition accept_full ::
    "nat \<Rightarrow> HashDB \<Rightarrow> bytes \<Rightarrow> ('v, 'x) Visitor_scheme \<Rightarrow> 'v \<Rightarrow> nat \<Rightarrow> bool \<Rightarrow> Record \<Rightarrow> nat
      \<Rightarrow> (bool \<times> 'v \<times> HashDB) option" where
  "accept_full fuel db kbuf visitor vst bidx isiter rec0 entoff =
     (case (if r_vbuf rec0 = None then read_record_body db rec0 else (Some rec0, db)) of
        (None, db1) \<Rightarrow> Some (False, vst, db1)
      | (Some rec, db1) \<Rightarrow>
          (case (case compr db1 of
                   None \<Rightarrow> r_vbuf rec
                 | Some c \<Rightarrow> decompress c (case r_vbuf rec of None \<Rightarrow> [] | Some v \<Rightarrow> v)) of
             None \<Rightarrow> Some (False, vst, set_error db1 SYSTEM ''data decompression failed'')
           | Some vbuf \<Rightarrow>
               (case visit_full visitor vst kbuf vbuf of
                  (NOP, vst1) \<Rightarrow> Some (True, vst1, db1)
                | (REMOVE, vst1) \<Rightarrow>
                    (let (ok2, atran, db2) = auto_begin db1
                     in if \<not> ok2 then Some (False, vst1, db2)
                        else
                          let (ok3, db3) = write_free_block db2 (r_off rec) (r_rsiz rec)
                          in if \<not> ok3 then Some (False, vst1, auto_abort db3 atran)
                             else
                               let db4 = insert_free_block db3 (r_off rec) (r_rsiz rec);
                                   db5 = db4\<lparr>frgcnt := frgcnt db4 + 1\<rparr>
                               in case cut_chain fuel db5 rec bidx entoff of
                                    None \<Rightarrow> None
                                  | Some (ok6, db6) \<Rightarrow>
                                      if \<not> ok6 then Some (False, vst1, auto_abort db6 atran)
                                      else
                                        let (ok7, db7) =
                                              auto_finish (db6\<lparr>count := count db6 - 1\<rparr>) atran
                                        in Some (ok7, vst1, db7))
                | (Replace vbuf1, vst1) \<Rightarrow>
                    (case (if compr db1 \<noteq> None \<and> \<not> isiter
                           then (case compr db1 of None \<Rightarrow> None | Some c \<Rightarrow> compress c vbuf1)
                           else Some vbuf1) of
                       None \<Rightarrow> Some (False, vst1, set_error db1 SYSTEM ''data compression failed'')
                     | Some vbuf2 \<Rightarrow>
                         (let (ok2, atran, db2) = auto_begin db1
                          in if \<not> ok2 then Some (False, vst1, db2)
                             else
                               let rsiz = calc_record_size db2 (r_ksiz rec) (length vbuf2)
                               in if rsiz \<le> r_rsiz rec then
                                    (let rec1 = rec\<lparr>r_psiz := r_rsiz rec - rsiz,
                                                     r_vsiz := length vbuf2, r_vbuf := Some vbuf2\<rparr>;
                                         (ok3, rec3, db3) = adjust_record db2 rec1
                                     in if \<not> ok3 then Some (False, vst1, auto_abort db3 atran)
                                        else
                                          let (ok4, db4) = write_record db3 rec3 True
                                          in if \<not> ok4 then Some (False, vst1, auto_abort db4 atran)
                                             else
                                               let (ok7, db7) = auto_finish db4 atran
                                               in Some (ok7, vst1, db7))
                                  else
                                    (let (ok3, db3) = write_free_block db2 (r_off rec) (r_rsiz rec)
                                     in if \<not> ok3 then Some (False, vst1, auto_abort db3 atran)
                                        else
                                          let db4 = insert_free_block db3 (r_off rec) (r_rsiz rec);
                                              db5 = db4\<lparr>frgcnt := frgcnt db4 + 1\<rparr>;
                                              psiz1 = calc_record_padding db5 rsiz;
                                              rec1 = rec\<lparr>r_rsiz := rsiz + psiz1, r_psiz := psiz1,
                                                        r_vsiz := length vbuf2,
                                                        r_vbuf := Some vbuf2\<rparr>;
                                              (ok6, db6) = write_new_record db5 rec1 rsiz
                                                             (\<not> isiter) bidx entoff atran
                                          in if \<not> ok6 then Some (False, vst1, db6)
                                             else
                                               let (ok7, db7) = auto_finish db6 atran
                                               in Some (ok7, vst1, db7)))))))"

text \<open>accept\_impl, the end of the chain: no record has the key.\<close>

definition accept_empty ::
    "HashDB \<Rightarrow> bytes \<Rightarrow> ('v, 'x) Visitor_scheme \<Rightarrow> 'v \<Rightarrow> nat \<Rightarrow> nat \<Rightarrow> bool \<times> 'v \<times> HashDB" where
  "accept_empty db kbuf visitor vst bidx entoff =
     (case visit_empty visitor vst kbuf of
        (NOP, vst1) \<Rightarrow> (True, vst1, db)
      | (REMOVE, vst1) \<Rightarrow> (True, vst1, db)
      | (Replace vbuf1, vst1) \<Rightarrow>
          (case (case compr db of None \<Rightarrow> Some vbuf1 | Some c \<Rightarrow> compress c vbuf1) of
             None \<Rightarrow> (False, vst1, set_error db SYSTEM ''data compression failed'')
           | Some vbuf2 \<Rightarrow>
               (let (ok2, atran, db2) = auto_begin db
                in if \<not> ok2 then (False, vst1, db2)
                   else
                     let rsiz = calc_record_size db2 (length kbuf) (length vbuf2);
                         psiz1 = calc_record_padding db2 rsiz;
                         rec = \<lparr>r_off = 0, r_rsiz = rsiz + psiz1, r_psiz = psiz1,
                                r_ksiz = length kbuf, r_vsiz = length vbuf2, r_left = 0,
                                r_right = 0, r_kbuf = Some kbuf, r_vbuf = Some vbuf2,
                                r_boff = 0, r_bbuf = None\<rparr>;
                         (ok6, db6) = write_new_record db2 rec rsiz True bidx entoff atran
                     in if \<not> ok6 then (False, vst1, db6)
                        else
                          let (ok7, db7) = auto_finish (db6\<lparr>count := count db6 + 1\<rparr>) atran
                          in (ok7, vst1, db7))))"

text \<open>
  accept\_impl, the walk down the chain of the bucket. \<open>off\<close> is the record to read next,
  \<open>entoff\<close> the slot that holds its offset (0 for the bucket itself); \<open>fuel\<close> bounds the
  steps of the walk.
\<close>

fun accept_loop ::
    "nat \<Rightarrow> HashDB \<Rightarrow> bytes \<Rightarrow> ('v, 'x) Visitor_scheme \<Rightarrow> 'v \<Rightarrow> nat \<Rightarrow> 32 word \<Rightarrow> bool \<Rightarrow> nat \<Rightarrow> nat
      \<Rightarrow> (bool \<times> 'v \<times> HashDB) option" where
  "accept_loop 0 db kbuf visitor vst bidx pivot isiter off entoff = None"
| "accept_loop (Suc fuel) db kbuf visitor vst bidx pivot isiter off entoff =
     (if off > 0 then
        (case read_record db off of
           (None, db1) \<Rightarrow> Some (False, vst, db1)
         | (Some rec, db1) \<Rightarrow>
             if r_psiz rec = UINT16_MAX
             then Some (False, vst, set_error db1 BROKEN ''free block in the chain'')
             else
               let rkbuf = (case r_kbuf rec of None \<Rightarrow> [] | Some k \<Rightarrow> k);
                   tpivot = (if linear db1 then pivot else fold_hash (hash_record db1 rkbuf))
               in if pivot > tpivot
                  then accept_loop fuel db1 kbuf visitor vst bidx pivot isiter
                         (r_left rec) (r_off rec + 2)
                  else if pivot < tpivot
                  then accept_loop fuel db1 kbuf visitor vst bidx pivot isiter
                         (r_right rec) (r_off rec + 2 + width db1)
                  else
                    let kcmp0 = compare_keys kbuf rkbuf;
                        kcmp = (if linear db1 \<and> kcmp0 \<noteq> 0 then 1 else kcmp0)
                    in if kcmp > 0
                       then accept_loop fuel db1 kbuf visitor vst bidx pivot isiter
                              (r_left rec) (r_off rec + 2)
                       else if kcmp < 0
                       then accept_loop fuel db1 kbuf visitor vst bidx pivot isiter
                              (r_right rec) (r_off rec + 2 + width db1)
                       else accept_full fuel db1 kbuf visitor vst bidx isiter rec entoff)
      else Some (accept_empty db kbuf visitor vst bidx entoff))"

definition accept_impl ::
    "nat \<Rightarrow> HashDB \<Rightarrow> bytes \<Rightarrow> ('v, 'x) Visitor_scheme \<Rightarrow> 'v \<Rightarrow> nat \<Rightarrow> 32 word \<Rightarrow> bool
      \<Rightarrow> (bool \<times> 'v \<times> HashDB) option" where
  "accept_impl fuel db kbuf visitor vst bidx pivot isiter =
     (case get_bucket db bidx of
        (None, db1) \<Rightarrow> Some (False, vst, db1)
      | (Some off, db1) \<Rightarrow> accept_loop fuel db1 kbuf visitor vst bidx pivot isiter off 0)"

subsection \<open>Defragmentation\<close>

text \<open>
  shift\_record moves a record to \<open>dest\<close> and redirects the slot that designates it; the
  walk down the chain of its bucket is the one of accept\_impl, bounded by \<open>fuel\<close>.
\<close>

definition trim_free_blocks :: "HashDB \<Rightarrow> nat \<Rightarrow> nat \<Rightarrow> HashDB" where
  "trim_free_blocks db begin endp =
     db\<lparr>fbp := filter (\<lambda>fb. \<not> (fb_off fb \<ge> begin \<and> fb_off fb < endp)) (fbp db)\<rparr>"

definition trim_cursors :: "HashDB \<Rightarrow> HashDB" where
  "trim_cursors db =
     db\<lparr>curs := map (\<lambda>cur. if cur_off cur \<ge> lsiz db then cur\<lparr>cur_off := 0\<rparr>
                            else if cur_end cur > lsiz db then cur\<lparr>cur_end := lsiz db\<rparr>
                            else cur) (curs db)\<rparr>"

fun shift_record_loop ::
    "nat \<Rightarrow> HashDB \<Rightarrow> Record \<Rightarrow> nat \<Rightarrow> nat \<Rightarrow> 32 word \<Rightarrow> nat \<Rightarrow> nat \<Rightarrow> (bool \<times> HashDB) option" where
  "shift_record_loop 0 db orec dest bidx pivot off entoff = None"
| "shift_record_loop (Suc fuel) db orec dest bidx pivot off entoff =
     (if off > 0 then
        (case read_record db off of
           (None, db1) \<Rightarrow> Some (False, db1)
         | (Some rec, db1) \<Rightarrow>
             if r_psiz rec = UINT16_MAX
             then Some (False, set_error db1 BROKEN ''free block in the chain'')
             else
               let rkbuf = (case r_kbuf rec of None \<Rightarrow> [] | Some k \<Rightarrow> k);
                   tpivot = (if linear db1 then pivot else fold_hash (hash_record db1 rkbuf))
               in if pivot > tpivot
                  then shift_record_loop fuel db1 orec dest bidx pivot (r_left rec) (r_off rec + 2)
                  else if pivot < tpivot
                  then shift_record_loop fuel db1 orec dest bidx pivot
                         (r_right rec) (r_off rec + 2 + width db1)
                  else
                    let kcmp0 = compare_keys (case r_kbuf orec of None \<Rightarrow> [] | Some k \<Rightarrow> k) rkbuf;
                        kcmp = (if linear db1 \<and> kcmp0 \<noteq> 0 then 1 else kcmp0)
                    in if kcmp > 0
                       then shift_record_loop fuel db1 orec dest bidx pivot
                              (r_left rec) (r_off rec + 2)
                       else if kcmp < 0
                       then shift_record_loop fuel db1 orec dest bidx pivot
                              (r_right rec) (r_off rec + 2 + width db1)
                       else
                         let (ok2, db2) = write_record db1 (orec\<lparr>r_off := dest\<rparr>) True
                         in if \<not> ok2 then Some (False, db2)
                            else Some (set_chain_or_bucket db2 bidx entoff dest))
      else Some (False, set_error db BROKEN ''no record to shift''))"

definition shift_record :: "nat \<Rightarrow> HashDB \<Rightarrow> Record \<Rightarrow> nat \<Rightarrow> (bool \<times> HashDB) option" where
  "shift_record fuel db orec dest =
     (let hash = hash_record db (case r_kbuf orec of None \<Rightarrow> [] | Some k \<Rightarrow> k);
          pivot = fold_hash hash;
          bidx = unat hash mod bnum db
      in case get_bucket db bidx of
           (None, db1) \<Rightarrow> Some (False, db1)
         | (Some off, db1) \<Rightarrow>
             if off = r_off orec then
               (let (ok2, db2) = write_record db1 (orec\<lparr>r_off := dest\<rparr>) True
                in if \<not> ok2 then Some (False, db2) else Some (set_bucket db2 bidx dest))
             else shift_record_loop fuel db1 orec dest bidx pivot off 0)"

text \<open>
  defrag\_impl. The first loop looks, in at most \<open>step\<close> records from the cursor of the
  defragmentation, for a free block; the second one moves the records behind it down, one
  per step; the gap that is left becomes a free block, or the file is cut.
\<close>

fun defrag_find :: "nat \<Rightarrow> HashDB \<Rightarrow> nat \<Rightarrow> (bool \<times> (Record \<times> nat) option \<times> HashDB)" where
  "defrag_find step db endp =
     (if dfcur db \<ge> endp then (True, None, db\<lparr>dfcur := roff db\<rparr>)
      else case step of
             0 \<Rightarrow> (True, None, db)
           | Suc step1 \<Rightarrow>
               (case read_record db (dfcur db) of
                  (None, db1) \<Rightarrow> (False, None, db1)
                | (Some rec, db1) \<Rightarrow>
                    if r_psiz rec = UINT16_MAX then (True, Some (rec, step1), db1)
                    else defrag_find step1 (db1\<lparr>dfcur := dfcur db1 + r_rsiz rec\<rparr>) endp))"

fun defrag_shift :: "nat \<Rightarrow> nat \<Rightarrow> HashDB \<Rightarrow> nat \<Rightarrow> nat \<Rightarrow> (bool \<times> nat \<times> HashDB) option" where
  "defrag_shift fuel 0 db endp dest = Some (True, dest, db)"
| "defrag_shift fuel (Suc step) db endp dest =
     (if \<not> dfcur db < endp then Some (True, dest, db)
      else
        case read_record db (dfcur db) of
          (None, db1) \<Rightarrow> Some (False, dest, db1)
        | (Some rec, db1) \<Rightarrow>
            let db2 = escape_cursors db1 (r_off rec) dest;
                db3 = db2\<lparr>dfcur := dfcur db2 + r_rsiz rec\<rparr>
            in if r_psiz rec \<noteq> UINT16_MAX then
                 (case (if r_vbuf rec = None then read_record_body db3 rec else (Some rec, db3)) of
                    (None, db4) \<Rightarrow> Some (False, dest, db4)
                  | (Some rec1, db4) \<Rightarrow>
                      let rec2 = (if r_psiz rec1 \<ge> align db4
                                  then (let diff = r_psiz rec1 - r_psiz rec1 mod align db4
                                        in rec1\<lparr>r_psiz := r_psiz rec1 - diff,
                                                 r_rsiz := r_rsiz rec1 - diff\<rparr>)
                                  else rec1)
                      in case shift_record fuel db4 rec2 dest of
                           None \<Rightarrow> None
                         | Some (ok5, db5) \<Rightarrow>
                             if \<not> ok5 then Some (False, dest, db5)
                             else defrag_shift fuel step db5 endp (dest + r_rsiz rec2))
               else defrag_shift fuel step db3 endp dest)"

definition defrag_impl :: "nat \<Rightarrow> HashDB \<Rightarrow> nat \<Rightarrow> (bool \<times> HashDB) option" where
  "defrag_impl fuel db step =
     (let endp = lsiz db
      in case defrag_find step db endp of
           (ok1, None, db1) \<Rightarrow> Some (ok1, db1)
         | (ok1, Some (rec, step1), db1) \<Rightarrow>
             let base = dfcur db1;
                 db2 = db1\<lparr>dfcur := dfcur db1 + r_rsiz rec\<rparr>
             in case defrag_shift fuel (step1 + 1) db2 endp base of
                  None \<Rightarrow> None
                | Some (ok3, dest, db3) \<Rightarrow>
                    if \<not> ok3 then Some (False, db3)
                    else
                      let db4 = trim_free_blocks db3 base (dfcur db3)
                      in if dfcur db4 \<ge> endp then
                           (let db5 = db4\<lparr>lsiz := dest, psiz := dest\<rparr>;
                                (ok6, f6) = File_truncate (dbfile db5) (lsiz db5)
                            in if \<not> ok6 then Some (False, db5\<lparr>dbfile := f6\<rparr>)
                               else Some (True, (trim_cursors (db5\<lparr>dbfile := f6\<rparr>))
                                                  \<lparr>dfcur := roff db5\<rparr>))
                         else
                           (let rsiz = dfcur db4 - dest;
                                (ok6, db6) = write_free_block db4 dest rsiz
                            in if \<not> ok6 then Some (False, db6)
                               else Some (True, (insert_free_block db6 dest rsiz)
                                                  \<lparr>dfcur := dest\<rparr>)))"

subsection \<open>The operations on a key\<close>

definition HDBDFRGMAX :: nat where "HDBDFRGMAX = 512"
definition HDBDFRGCEF :: nat where "HDBDFRGCEF = 2"

text \<open>
  HashDB::accept. One thread uses the database: its locks are free, and the lock of the
  method is promoted when the automatic defragmentation asks for it. \<open>None\<close> is a walk
  that has not ended within \<open>fuel\<close> steps.
\<close>

definition accept ::
    "nat \<Rightarrow> HashDB \<Rightarrow> bytes \<Rightarrow> ('v, 'x) Visitor_scheme \<Rightarrow> 'v \<Rightarrow> bool \<Rightarrow> (bool \<times> 'v \<times> HashDB) option" where
  "accept fuel db kbuf visitor vst writable =
     (if omode db = 0 then Some (False, vst, set_error db INVALID ''not opened'')
      else if writable \<and> \<not> writer db
      then Some (False, vst, set_error db NOPERM ''permission denied'')
      else
        let hash = hash_record db kbuf;
            pivot = fold_hash hash;
            bidx = unat hash mod bnum db
        in case accept_impl fuel db kbuf visitor vst bidx pivot False of
             None \<Rightarrow> None
           | Some (ok1, vst1, db1) \<Rightarrow>
               if ok1 \<and> dfunit db1 > 0 \<and> frgcnt db1 \<ge> dfunit db1 then
                 (let unit = (if frgcnt db1 > HDBDFRGMAX then HDBDFRGMAX else frgcnt db1)
                  in case defrag_impl fuel db1 (unit * HDBDFRGCEF) of
                       None \<Rightarrow> None
                     | Some (ok2, db2) \<Rightarrow> Some (ok2, vst1, db2\<lparr>frgcnt := frgcnt db2 - unit\<rparr>))
               else Some (ok1, vst1, db1))"

text \<open>
  FileDB::set, FileDB::add and FileDB::get, each with its visitor: the one of set replaces
  the value or creates the record, the one of add creates the record and notes that it
  did, the one of get keeps the value it is shown. A visitor leaves unchanged (NOP) what
  it does not override.
\<close>

definition set_visitor :: "bytes \<Rightarrow> unit Visitor" where
  "set_visitor vbuf =
     \<lparr>visit_full = (\<lambda>vst kbuf v. (Replace vbuf, vst)),
      visit_empty = (\<lambda>vst kbuf. (Replace vbuf, vst))\<rparr>"

definition db_set :: "nat \<Rightarrow> HashDB \<Rightarrow> bytes \<Rightarrow> bytes \<Rightarrow> (bool \<times> HashDB) option" where
  "db_set fuel db kbuf vbuf =
     (case accept fuel db kbuf (set_visitor vbuf) () True of
        None \<Rightarrow> None
      | Some (ok, vst, db1) \<Rightarrow> Some (ok, db1))"

definition add_visitor :: "bytes \<Rightarrow> bool Visitor" where
  "add_visitor vbuf =
     \<lparr>visit_full = (\<lambda>vst kbuf v. (NOP, vst)),
      visit_empty = (\<lambda>vst kbuf. (Replace vbuf, True))\<rparr>"

definition db_add :: "nat \<Rightarrow> HashDB \<Rightarrow> bytes \<Rightarrow> bytes \<Rightarrow> (bool \<times> HashDB) option" where
  "db_add fuel db kbuf vbuf =
     (case accept fuel db kbuf (add_visitor vbuf) False True of
        None \<Rightarrow> None
      | Some (ok, vst, db1) \<Rightarrow>
          if \<not> ok then Some (False, db1)
          else if \<not> vst then Some (False, set_error db1 DUPREC ''record duplication'')
          else Some (True, db1))"

definition get_visitor :: "bytes option Visitor" where
  "get_visitor =
     \<lparr>visit_full = (\<lambda>vst kbuf v. (NOP, Some v)),
      visit_empty = (\<lambda>vst kbuf. (NOP, vst))\<rparr>"

definition db_get :: "nat \<Rightarrow> HashDB \<Rightarrow> bytes \<Rightarrow> (bytes option \<times> HashDB) option" where
  "db_get fuel db kbuf =
     (case accept fuel db kbuf get_visitor None False of
        None \<Rightarrow> None
      | Some (ok, vst, db1) \<Rightarrow>
          if \<not> ok then Some (None, db1)
          else (case vst of
                  None \<Rightarrow> Some (None, set_error db1 NOREC ''no record'')
                | Some v \<Rightarrow> Some (Some v, db1)))"

subsection \<open>Well-formed records\<close>

text \<open>
  What calc\_meta leaves in the object (\<open>meta_ok\<close>); a record as write\_record takes it,
  with its key and value, a padding that fits the two bytes of its field, children that
  are aligned offsets of the address width, and the size of its bytes (\<open>rec_ok\<close>); and
  such a record lying in the file at its offset, inside the record section (\<open>rec_at\<close>).
\<close>

definition meta_ok :: "HashDB \<Rightarrow> bool" where
  "meta_ok db =
     (align db = 2 ^ apow db \<and> apow db \<le> HDBMAXAPOW
      \<and> (width db = HDBWIDTHSMALL \<or> width db = HDBWIDTHLARGE)
      \<and> rhsiz db = 4 + (if linear db then width db else width db * 2)
      \<and> boff db + width db * bnum db \<le> roff db \<and> HDBHEADSIZ \<le> boff db)"

definition rec_hsiz :: "HashDB \<Rightarrow> Record \<Rightarrow> nat" where
  "rec_hsiz db rec =
     2 + width db + (if linear db then 0 else width db)
     + length (writevarnum (r_ksiz rec)) + length (writevarnum (r_vsiz rec))"

definition addr_ok :: "HashDB \<Rightarrow> nat \<Rightarrow> bool" where
  "addr_ok db off = (2 ^ apow db dvd off \<and> drop_bit (apow db) off < 256 ^ width db)"

definition rec_ok :: "HashDB \<Rightarrow> Record \<Rightarrow> bool" where
  "rec_ok db rec =
     ((case r_kbuf rec of None \<Rightarrow> False | Some k \<Rightarrow> length k = r_ksiz rec)
      \<and> (case r_vbuf rec of None \<Rightarrow> False | Some v \<Rightarrow> length v = r_vsiz rec)
      \<and> r_psiz rec \<le> INT16_MAX
      \<and> r_ksiz rec < 2 ^ 35 \<and> r_vsiz rec < 2 ^ 35
      \<and> addr_ok db (r_left rec) \<and> addr_ok db (r_right rec)
      \<and> (linear db \<longrightarrow> r_right rec = 0)
      \<and> r_rsiz rec = rec_hsiz db rec + r_ksiz rec + r_vsiz rec + r_psiz rec)"

definition rec_at :: "HashDB \<Rightarrow> Record \<Rightarrow> bool" where
  "rec_at db rec =
     (rec_ok db rec \<and> roff db \<le> r_off rec \<and> r_off rec + r_rsiz rec \<le> psiz db
      \<and> load_bytes (core_map (dbfile db)) (r_off rec) (r_rsiz rec) = record_bytes db rec)"

text \<open>Two records that agree in all but the buffers that read\_record leaves null.\<close>

definition rec_like :: "Record \<Rightarrow> Record \<Rightarrow> bool" where
  "rec_like rec' rec =
     (r_off rec' = r_off rec \<and> r_rsiz rec' = r_rsiz rec \<and> r_psiz rec' = r_psiz rec
      \<and> r_ksiz rec' = r_ksiz rec \<and> r_vsiz rec' = r_vsiz rec
      \<and> r_left rec' = r_left rec \<and> r_right rec' = r_right rec
      \<and> r_kbuf rec' = r_kbuf rec)"

subsection \<open>The chain of a bucket\<close>

text \<open>
  The side accept\_impl takes at a record that it has read, for the key \<open>kbuf\<close> of
  pivot \<open>pivot\<close>: the next offset and the slot that holds it, or \<open>None\<close> when the record
  has the key. \<open>chain\<close> says that the records \<open>rs\<close> lie in the file and lead, side by
  side, from the offset \<open>off\<close> (held by the slot \<open>entoff\<close>) to the offset \<open>off'\<close> (held
  by the slot \<open>entoff'\<close>).
\<close>

definition step_dir :: "HashDB \<Rightarrow> bytes \<Rightarrow> 32 word \<Rightarrow> Record \<Rightarrow> (nat \<times> nat) option" where
  "step_dir db kbuf pivot rec =
     (let rkbuf = (case r_kbuf rec of None \<Rightarrow> [] | Some k \<Rightarrow> k);
          tpivot = (if linear db then pivot else fold_hash (hash_record db rkbuf))
      in if pivot > tpivot then Some (r_left rec, r_off rec + 2)
         else if pivot < tpivot then Some (r_right rec, r_off rec + 2 + width db)
         else
           let kcmp0 = compare_keys kbuf rkbuf;
               kcmp = (if linear db \<and> kcmp0 \<noteq> 0 then 1 else kcmp0)
           in if kcmp > 0 then Some (r_left rec, r_off rec + 2)
              else if kcmp < 0 then Some (r_right rec, r_off rec + 2 + width db)
              else None)"

fun chain :: "HashDB \<Rightarrow> bytes \<Rightarrow> 32 word \<Rightarrow> Record list \<Rightarrow> nat \<Rightarrow> nat \<Rightarrow> nat \<Rightarrow> nat \<Rightarrow> bool" where
  "chain db kbuf pivot [] off entoff off' entoff' = (off' = off \<and> entoff' = entoff)"
| "chain db kbuf pivot (r # rs) off entoff off' entoff' =
     (off > 0 \<and> r_off r = off \<and> rec_at db r \<and>
      (case step_dir db kbuf pivot r of
         None \<Rightarrow> False
       | Some (off1, entoff1) \<Rightarrow> chain db kbuf pivot rs off1 entoff1 off' entoff'))"

text \<open>
  The bucket and the pivot HashDB::accept computes for a key, the offset the bucket
  holds, and the chain that a lookup of the key walks from its bucket.
\<close>

definition key_bidx :: "HashDB \<Rightarrow> bytes \<Rightarrow> nat" where
  "key_bidx db kbuf = unat (hash_record db kbuf) mod bnum db"

definition key_pivot :: "HashDB \<Rightarrow> bytes \<Rightarrow> 32 word" where
  "key_pivot db kbuf = fold_hash (hash_record db kbuf)"

definition bucket_off :: "HashDB \<Rightarrow> nat \<Rightarrow> nat" where
  "bucket_off db bidx =
     push_bit (apow db)
       (readfixnum (load_bytes (core_map (dbfile db)) (boff db + bidx * width db) (width db))
          (width db))"

definition lookup :: "HashDB \<Rightarrow> bytes \<Rightarrow> Record list \<Rightarrow> nat \<Rightarrow> nat \<Rightarrow> bool" where
  "lookup db kbuf rs off' entoff' =
     chain db kbuf (key_pivot db kbuf) rs (bucket_off db (key_bidx db kbuf)) 0 off' entoff'"

text \<open>The value a record holds, as the visitor is shown it: decompressed.\<close>

definition shown_value :: "HashDB \<Rightarrow> Record \<Rightarrow> bytes option" where
  "shown_value db rec =
     (case compr db of
        None \<Rightarrow> r_vbuf rec
      | Some c \<Rightarrow> decompress c (case r_vbuf rec of None \<Rightarrow> [] | Some v \<Rightarrow> v))"

text \<open>
  What an operation on a key leaves as it is in the object of the database: all but the
  file, the pool, the cursors, the two sizes, the two counters, the last error and the
  status flags.
\<close>

definition same_conf :: "HashDB \<Rightarrow> HashDB \<Rightarrow> bool" where
  "same_conf db' db =
     (db' = db\<lparr>dbfile := dbfile db', fbp := fbp db', curs := curs db', lsiz := lsiz db',
                psiz := psiz db', count := count db', frgcnt := frgcnt db',
                error := error db', flags := flags db'\<rparr>)"

text \<open>
  The state in which the operations on a key are looked at. \<open>store_ok\<close>: the database
  is open for writing with the meta data of calc\_meta, the automatic defragmentation is
  off (tune\_defrag was not called), and the end of the file is an address. Two regions
  of the file are \<open>apart\<close> when they share no byte; the records of a chain are apart
  from each other (\<open>recs_apart\<close>), and the blocks of the pool lie in the record section,
  at addresses, apart from the records of the chain (\<open>pool_ok\<close>).
\<close>

definition store_ok :: "HashDB \<Rightarrow> bool" where
  "store_ok db =
     (meta_ok db \<and> omode db \<noteq> 0 \<and> writer db \<and> 0 < bnum db \<and> dfunit db = 0
      \<and> psiz db \<le> lsiz db \<and> roff db \<le> lsiz db \<and> addr_ok db (lsiz db))"

definition apart :: "nat \<Rightarrow> nat \<Rightarrow> nat \<Rightarrow> nat \<Rightarrow> bool" where
  "apart a n b m = (a + n \<le> b \<or> b + m \<le> a)"

fun recs_apart :: "Record list \<Rightarrow> bool" where
  "recs_apart [] = True"
| "recs_apart (r # rs) =
     (list_all (\<lambda>r'. apart (r_off r) (r_rsiz r) (r_off r') (r_rsiz r')) rs \<and> recs_apart rs)"

definition pool_ok :: "HashDB \<Rightarrow> Record list \<Rightarrow> bool" where
  "pool_ok db rs =
     list_all (\<lambda>fb. roff db \<le> fb_off fb \<and> fb_off fb + fb_rsiz fb \<le> psiz db
                    \<and> addr_ok db (fb_off fb)
                    \<and> list_all (\<lambda>r. apart (fb_off fb) (fb_rsiz fb) (r_off r) (r_rsiz r)) rs)
       (fbp db)"

text \<open>
  The record \<open>rec\<close> after the slot \<open>entoff\<close>, which is the one of its left child or the
  one of its right child, has been set to \<open>off\<close>; and the chain \<open>rs\<close> after the slot of
  its last record has.
\<close>

definition relink :: "Record \<Rightarrow> nat \<Rightarrow> nat \<Rightarrow> Record" where
  "relink rec entoff off =
     (if entoff = r_off rec + 2 then rec\<lparr>r_left := off\<rparr> else rec\<lparr>r_right := off\<rparr>)"

definition relink_last :: "Record list \<Rightarrow> nat \<Rightarrow> nat \<Rightarrow> Record list" where
  "relink_last rs entoff off =
     (if rs = [] then [] else butlast rs @ [relink (last rs) entoff off])"

text \<open>
  What the chain of a key ends with: no record (\<open>None\<close>, the offset is 0), or the record
  that has the key, whose value can be shown.
\<close>

definition chain_end :: "HashDB \<Rightarrow> bytes \<Rightarrow> nat \<Rightarrow> Record option \<Rightarrow> bool" where
  "chain_end db kbuf off tgt =
     (case tgt of
        None \<Rightarrow> off = 0
      | Some r \<Rightarrow> off = r_off r \<and> 0 < r_off r \<and> rec_at db r \<and> r_kbuf r = Some kbuf
                  \<and> shown_value db r \<noteq> None)"

text \<open>The value as accept\_impl stores it: compressed when the database compresses.\<close>

definition stored_value :: "HashDB \<Rightarrow> bytes \<Rightarrow> bytes option" where
  "stored_value db vbuf = (case compr db of None \<Rightarrow> Some vbuf | Some c \<Rightarrow> compress c vbuf)"

definition unstored_value :: "HashDB \<Rightarrow> bytes \<Rightarrow> bytes option" where
  "unstored_value db zbuf = (case compr db of None \<Rightarrow> Some zbuf | Some c \<Rightarrow> decompress c zbuf)"

subsection \<open>Constructors\<close>

text \<open>File::File() and HashDB::HashDB(): the state of a new object. The page size of the
  system, the version numbers of the library and the hash function are parameters.\<close>

definition File_new :: "nat \<Rightarrow> FileCore" where
  "File_new pagesize =
     \<lparr>core_map = (\<lambda>i. 0), core_msiz = 0, core_lsiz = 0, core_psiz = 0,
      core_pagesize = pagesize, core_walfd = False, core_walmap = (\<lambda>i. 0),
      core_walfsiz = 0, core_walsiz = 0, core_tran = False, core_trhard = False,
      core_trbase = 0, core_trmsiz = 0\<rparr>"


definition HashDB_new :: "nat \<Rightarrow> byte \<Rightarrow> byte \<Rightarrow> byte \<Rightarrow> (bytes \<Rightarrow> 64 word) \<Rightarrow> Compressor \<Rightarrow> HashDB" where
  "HashDB_new pagesize LIBVER LIBREV FMTVER hashfn zlibrawcomp =
     \<lparr>error = (SUCCESS, ''no error''), omode = 0, writer = False, autotran = False,
      autosync = False, dbfile = File_new pagesize, fbp = [], curs = [],
      libver = LIBVER, librev = LIBREV, fmtver = FMTVER, chksum = 0, dbtype = TYPEHASH,
      apow = HDBDEFAPOW, fpow = HDBDEFFPOW, opts = 0, bnum = HDBDEFBNUM,
      flags = 0, flagopen = False, count = 0, lsiz = 0, psiz = 0,
      opaque = replicate 16 0, dfunit = 0, embcomp = zlibrawcomp,
      align = 0, fbpnum = 0, width = 0, linear = False, compr = None, rhsiz = 0,
      boff = 0, roff = 0, dfcur = 0, frgcnt = 0, tran = False, trhard = False,
      trfbp = [], hashmurmur = hashfn\<rparr>"

subsection \<open>Example states\<close>

text \<open>A new database object, its meta data computed for a pool of capacity \<open>2 ^ F\<close>.\<close>

definition example_db :: "nat \<Rightarrow> HashDB" where
  "example_db F =
     calc_meta ((HashDB_new 4096 1 0 5 (\<lambda>k. 0) \<lparr>compress = Some, decompress = Some\<rparr>)
                  \<lparr>fpow := F, bnum := 17\<rparr>)"

definition example_pool2 :: HashDB where
  "example_pool2 =
     (example_db 1)\<lparr>fbp := [\<lparr>fb_off = 1024, fb_rsiz = 32\<rparr>, \<lparr>fb_off = 2048, fb_rsiz = 64\<rparr>]\<rparr>"

definition example_pool4 :: HashDB where
  "example_pool4 =
     (example_db 2)\<lparr>fbp := [\<lparr>fb_off = 1024, fb_rsiz = 32\<rparr>, \<lparr>fb_off = 4096, fb_rsiz = 64\<rparr>,
                              \<lparr>fb_off = 2048, fb_rsiz = 64\<rparr>, \<lparr>fb_off = 512, fb_rsiz = 128\<rparr>]\<rparr>"

definition example_pool8 :: HashDB where
  "example_pool8 =
     (example_db 3)\<lparr>fbp := [\<lparr>fb_off = 8192, fb_rsiz = 16\<rparr>, \<lparr>fb_off = 7168, fb_rsiz = 32\<rparr>,
                              \<lparr>fb_off = 6144, fb_rsiz = 48\<rparr>, \<lparr>fb_off = 5120, fb_rsiz = 64\<rparr>,
                              \<lparr>fb_off = 4096, fb_rsiz = 80\<rparr>, \<lparr>fb_off = 3072, fb_rsiz = 96\<rparr>,
                              \<lparr>fb_off = 2048, fb_rsiz = 112\<rparr>, \<lparr>fb_off = 1024, fb_rsiz = 128\<rparr>]\<rparr>"

text \<open>A file of eight bytes, and three operations of a transaction on it.\<close>

definition example_core :: FileCore where
  "example_core = snd (File_write (File_new 4096) 0 [1, 2, 3, 4, 5, 6, 7, 8])"

definition example_ops :: "FileOp list" where
  "example_ops = [OpWriteFast 3 [9, 9], OpWrite 6 [7, 7, 7, 7], OpTruncate 5]"

text \<open>
  A database as HashDB::open leaves a new file, with 17 buckets, a pool of four blocks and
  a hash function that sends every key to the bucket 0 with the pivot 0; \<open>o1\<close> are
  the options.
\<close>

definition example_open :: "byte \<Rightarrow> HashDB" where
  "example_open o1 =
     (let db = calc_meta ((HashDB_new 4096 1 0 5 (\<lambda>k. 0) \<lparr>compress = Some, decompress = Some\<rparr>)
                            \<lparr>fpow := 2, bnum := 17, opts := o1\<rparr>)
      in db\<lparr>omode := OWRITER + OCREATE, writer := True, lsiz := roff db, psiz := roff db\<rparr>)"

text \<open>The example database after the record of key 1 2 and value 3 has been added.\<close>

definition example_added :: HashDB where
  "example_added = snd (the (db_add 1 (example_open 0) [1, 2] [3]))"

section \<open>Properties\<close>

subsection \<open>Errors and the fatal flag\<close>

lemma FFATAL_or: "(x OR FFATAL) AND FFATAL = FFATAL"
  by (simp add: FFATAL_def bit_eq_iff bit_simps)



subsection \<open>The free block pool\<close>

lemma fb_equiv_eq: "\<not> fb_less x y \<Longrightarrow> \<not> fb_less y x \<Longrightarrow> x = (y::FreeBlock)"
  by (cases x, cases y) (auto simp: fb_less_def)

lemma set_set_insert: "set (set_insert x xs) = insert x (set xs)"
  by (induction xs) (auto dest: fb_equiv_eq)

lemma length_set_insert: "length (set_insert x xs) \<le> Suc (length xs)"
  by (induction xs) auto

lemma fb_less_trans: "fb_less a b \<Longrightarrow> fb_less b c \<Longrightarrow> fb_less a c"
  by (auto simp: fb_less_def)

lemma fb_less_irrefl: "\<not> fb_less a a"
  by (simp add: fb_less_def)

lemma sorted_set_insert: "sorted_wrt fb_less xs \<Longrightarrow> sorted_wrt fb_less (set_insert x xs)"
proof (induction xs)
  case Nil
  then show ?case by simp
next
  case (Cons y ys)
  show ?case
  proof (cases "fb_less x y")
    case True
    with Cons.prems show ?thesis by (auto intro: fb_less_trans)
  next
    case False
    show ?thesis
    proof (cases "fb_less y x")
      case True
      with False Cons show ?thesis by (auto simp: set_set_insert)
    next
      case nyx: False
      with False Cons.prems show ?thesis by simp
    qed
  qed
qed

lemma upper_bound_Some:
  "sorted_wrt fb_less xs \<Longrightarrow> upper_bound x xs = Some y \<Longrightarrow>
     y \<in> set xs \<and> fb_less x y \<and> (\<forall>z\<in>set xs. fb_less x z \<longrightarrow> z = y \<or> fb_less y z)"
  by (induction xs) (auto split: if_splits)

lemma upper_bound_None: "upper_bound x xs = None \<Longrightarrow> \<forall>z\<in>set xs. \<not> fb_less x z"
  by (induction xs) (auto split: if_splits)

lemma set_erase_remove1: "set_erase y xs = remove1 y xs"
  by (induction xs) auto

lemma set_erase_sorted:
  "sorted_wrt fb_less xs \<Longrightarrow> y \<in> set xs \<Longrightarrow>
     set (set_erase y xs) = set xs - {y} \<and> sorted_wrt fb_less (set_erase y xs)
     \<and> Suc (length (set_erase y xs)) = length xs"
  by (induction xs) (auto simp: fb_less_irrefl)

lemma key_less_iff:
  "fb_off z < INT64_MAX \<Longrightarrow> fb_less \<lparr>fb_off = INT64_MAX, fb_rsiz = m\<rparr> z \<longleftrightarrow> m \<le> fb_rsiz z"
  by (auto simp: fb_less_def)

lemma fbp_escape_cursors [simp]:
  "fbp (escape_cursors db a b) = fbp db" "fbpnum (escape_cursors db a b) = fbpnum db"
  by (simp_all add: escape_cursors_def)

lemma sorted_hd_least:
  "sorted_wrt fb_less xs \<Longrightarrow> xs \<noteq> [] \<Longrightarrow> \<forall>e\<in>set xs. e = hd xs \<or> fb_less (hd xs) e"
  by (cases xs) auto

lemma insert_free_block_length:
  "length (fbp db) \<le> fbpnum db \<Longrightarrow> length (fbp (insert_free_block db off rsiz)) \<le> fbpnum db"
proof -
  assume le: "length (fbp db) \<le> fbpnum db"
  show ?thesis
  proof (cases "fbp db")
    case Nil
    then show ?thesis using le
      by (auto simp: insert_free_block_def Let_def)
  next
    case (Cons it rest)
    have "length (set_insert \<lparr>fb_off = off, fb_rsiz = rsiz\<rparr> rest) \<le> Suc (length rest)"
      by (rule length_set_insert)
    moreover have "length (set_insert \<lparr>fb_off = off, fb_rsiz = rsiz\<rparr> (it # rest)) \<le> Suc (Suc (length rest))"
      using length_set_insert [of _ "it # rest"] by simp
    ultimately show ?thesis using le Cons
      by (auto simp: insert_free_block_def Let_def simp del: set_insert.simps)
  qed
qed

lemma insert_free_block_full:
  assumes "length (fbp db) = fbpnum db" "fbp db \<noteq> []"
  shows "fbp (insert_free_block db off rsiz) =
           (if rsiz \<le> fb_rsiz (hd (fbp db)) then fbp db
            else set_insert \<lparr>fb_off = off, fb_rsiz = rsiz\<rparr> (tl (fbp db)))"
  using assms by (cases "fbp db") (auto simp: insert_free_block_def Let_def simp del: set_insert.simps)


lemma example_pool2_simps:
  "fbp example_pool2 = [\<lparr>fb_off = 1024, fb_rsiz = 32\<rparr>, \<lparr>fb_off = 2048, fb_rsiz = 64\<rparr>]"
  "fbpnum example_pool2 = 2" "fpow example_pool2 = 1"
  by (simp_all add: example_pool2_def example_db_def calc_meta_def Let_def HashDB_new_def)



text \<open>
  Claim C8. On a pool in the order of the set, with offsets below INT64\_MAX and within
  its capacity, fetch\_free\_block with the minimum size \<open>m\<close> returns the block that
  comes first in the order among the blocks of size at least \<open>m\<close> (the smallest such
  size and, among equal sizes, the largest offset), and erases exactly that block; when no
  block has size at least \<open>m\<close> it fails and leaves the database as it is.
\<close>

theorem fetch_free_block_best_fit:
  assumes "sorted_wrt fb_less (fbp db)" and "\<forall>e\<in>set (fbp db). fb_off e < INT64_MAX"
    and "length (fbp db) \<le> fbpnum db"
  shows "case fetch_free_block db m of
           (Some e, db') \<Rightarrow>
              e \<in> set (fbp db) \<and> m \<le> fb_rsiz e
              \<and> (\<forall>e'\<in>set (fbp db). m \<le> fb_rsiz e' \<longrightarrow> e' = e \<or> fb_less e e')
              \<and> fbp db' = remove1 e (fbp db) \<and> set (fbp db') = set (fbp db) - {e}
              \<and> Suc (length (fbp db')) = length (fbp db) \<and> sorted_wrt fb_less (fbp db')
         | (None, db') \<Rightarrow> (\<forall>e\<in>set (fbp db). fb_rsiz e < m) \<and> db' = db"
proof (cases "upper_bound \<lparr>fb_off = INT64_MAX, fb_rsiz = m\<rparr> (fbp db)")
  case None
  from upper_bound_None [OF None] assms(2) have "\<forall>e\<in>set (fbp db). fb_rsiz e < m"
    by (auto simp: key_less_iff)
  with None show ?thesis by (simp add: fetch_free_block_def)
next
  case (Some it)
  from upper_bound_Some [OF assms(1) Some] assms(2)
  have it: "it \<in> set (fbp db)" "m \<le> fb_rsiz it"
    "\<forall>e'\<in>set (fbp db). m \<le> fb_rsiz e' \<longrightarrow> e' = it \<or> fb_less it e'"
    by (auto simp: key_less_iff)
  from it(1) assms(3) have "\<not> fbpnum db < 1" by (cases "fbp db") auto
  with Some it set_erase_sorted [OF assms(1) it(1)] show ?thesis
    by (simp add: fetch_free_block_def set_erase_remove1)
qed


lemma example_pool4_simps:
  "fbp example_pool4 = [\<lparr>fb_off = 1024, fb_rsiz = 32\<rparr>, \<lparr>fb_off = 4096, fb_rsiz = 64\<rparr>,
                        \<lparr>fb_off = 2048, fb_rsiz = 64\<rparr>, \<lparr>fb_off = 512, fb_rsiz = 128\<rparr>]"
  "fbpnum example_pool4 = 4" "curs example_pool4 = []"
  by (simp_all add: example_pool4_def example_db_def calc_meta_def Let_def HashDB_new_def)

theorem fetch_free_block_best_fit_witness:
  "sorted_wrt fb_less (fbp example_pool4)
   \<and> list_all (\<lambda>e. fb_off e < INT64_MAX) (fbp example_pool4)
   \<and> length (fbp example_pool4) \<le> fbpnum example_pool4
   \<and> fst (fetch_free_block example_pool4 40) = Some \<lparr>fb_off = 4096, fb_rsiz = 64\<rparr>
   \<and> fbp (snd (fetch_free_block example_pool4 40)) =
        [\<lparr>fb_off = 1024, fb_rsiz = 32\<rparr>, \<lparr>fb_off = 2048, fb_rsiz = 64\<rparr>, \<lparr>fb_off = 512, fb_rsiz = 128\<rparr>]
   \<and> fetch_free_block example_pool4 200 = (None, example_pool4)"
proof -
  have h: "sorted_wrt fb_less (fbp example_pool4)"
    "\<forall>e\<in>set (fbp example_pool4). fb_off e < INT64_MAX"
    "length (fbp example_pool4) \<le> fbpnum example_pool4"
    by (simp_all add: example_pool4_simps fb_less_def INT64_MAX_def)
  have v: "fst (fetch_free_block example_pool4 40) = Some \<lparr>fb_off = 4096, fb_rsiz = 64\<rparr>"
    by (simp add: fetch_free_block_def example_pool4_simps fb_less_def INT64_MAX_def)
  have n: "fst (fetch_free_block example_pool4 200) = None"
    by (simp add: fetch_free_block_def example_pool4_simps fb_less_def INT64_MAX_def)
  from v fetch_free_block_best_fit [OF h, of 40]
  have a: "fbp (snd (fetch_free_block example_pool4 40)) =
        [\<lparr>fb_off = 1024, fb_rsiz = 32\<rparr>, \<lparr>fb_off = 2048, fb_rsiz = 64\<rparr>, \<lparr>fb_off = 512, fb_rsiz = 128\<rparr>]"
    by (cases "fetch_free_block example_pool4 40") (simp add: example_pool4_simps)
  from n fetch_free_block_best_fit [OF h, of 200]
  have b: "fetch_free_block example_pool4 200 = (None, example_pool4)"
    by (cases "fetch_free_block example_pool4 200") simp
  from h(2) have h2: "list_all (\<lambda>e. fb_off e < INT64_MAX) (fbp example_pool4)"
    by (simp add: list_all_iff)
  from h(1,3) h2 v a b show ?thesis by blast
qed

subsection \<open>The pool across a transaction\<close>

lemma set_insert_front:
  "\<forall>y\<in>set tr. fb_less x y \<Longrightarrow> set_insert x tr = x # tr"
  by (cases tr) auto

lemma escape_fbp_append:
  "sorted_wrt fb_less (rest @ tr) \<Longrightarrow>
     escape_fbp n rest tr = drop (length rest - n) rest @ tr"
proof (induction n arbitrary: rest tr)
  case 0
  then show ?case by simp
next
  case (Suc n)
  show ?case
  proof (cases "rest = []")
    case True
    then show ?thesis by simp
  next
    case False
    then obtain ys y where r: "rest = ys @ [y]"
      by (metis append_butlast_last_id)
    from Suc.prems r have lt: "\<forall>z\<in>set tr. fb_less y z"
      by (auto simp: sorted_wrt_append)
    from Suc.prems r have s: "sorted_wrt fb_less (ys @ (y # tr))"
      by simp
    have "escape_fbp (Suc n) rest tr = escape_fbp n ys (y # tr)"
      using r lt by (simp add: set_insert_front)
    also have "\<dots> = drop (length ys - n) ys @ (y # tr)"
      by (rule Suc.IH [OF s])
    also have "\<dots> = drop (length rest - Suc n) rest @ tr"
      using r by simp
    finally show ?thesis .
  qed
qed

lemma walwrite_ok: "walwrite core off siz base = (ok, c) \<Longrightarrow> ok"
  by (auto simp: walwrite_def Let_def split: option.splits)

lemma File_write_ok: "File_write core off buf = (ok, c) \<Longrightarrow> ok"
  by (auto simp: File_write_def Let_def split: if_splits prod.splits dest: walwrite_ok)

lemma dump_meta_fbp:
  "dump_meta db = (ok, db1) \<Longrightarrow>
     ok \<and> fbp db1 = fbp db \<and> trfbp db1 = trfbp db \<and> fbpnum db1 = fbpnum db \<and> fpow db1 = fpow db"
  by (auto simp: dump_meta_def set_error_def Let_def split: prod.splits if_splits dest: File_write_ok)

lemma begin_transaction_impl_fbp:
  "begin_transaction_impl db = (ok, db1) \<Longrightarrow>
     ok \<and> fbp db1 = fbp db \<and> fbpnum db1 = fbpnum db \<and> fpow db1 = fpow db \<and>
     trfbp db1 = (if fbpnum db > 0 then escape_fbp (fpow db * 2 + 1) (fbp db) (trfbp db)
                  else trfbp db)"
  by (auto simp: begin_transaction_impl_def File_begin_transaction_def File_write_transaction_def
        Let_def split: prod.splits if_splits dest!: dump_meta_fbp walwrite_ok)

lemma calc_meta_fbp: "fbp (calc_meta db) = fbp db" "trfbp (calc_meta db) = trfbp db"
  by (simp_all add: calc_meta_def Let_def)

lemma load_meta_fbp:
  "load_meta db = (ok, db1) \<Longrightarrow> fbp db1 = fbp db \<and> trfbp db1 = trfbp db"
  by (auto simp: load_meta_def set_error_def Let_def split: option.splits if_splits)

lemma abort_transaction_fbp:
  "fbp (snd (abort_transaction db)) = trfbp db \<and> trfbp (snd (abort_transaction db)) = []"
  by (auto simp: abort_transaction_def Let_def disable_cursors_def calc_meta_fbp
        set_error_def split: prod.splits dest!: load_meta_fbp)

text \<open>
  Claim C4, as amended. begin\_transaction\_impl copies into the rollback pool the last
  \<open>2 * F + 1\<close> blocks of the pool in its order (the largest ones), all of them when the
  pool holds no more; abort\_transaction replaces the pool by the rollback copy, whatever
  the window between the two did to the pool, and empties the rollback copy. So after
  the abort the pool is again \<open>P\<close> when \<open>P\<close> held at most \<open>2 * F + 1\<close> blocks.
\<close>

theorem abort_restores_escaped_pool:
  assumes "begin_transaction_impl db = (ok, db1)" and "trfbp db = []"
    and "sorted_wrt fb_less (fbp db)" and "length (fbp db) \<le> fbpnum db"
    and "trfbp db2 = trfbp db1"
  shows "ok \<and> trfbp db1 = drop (length (fbp db) - (fpow db * 2 + 1)) (fbp db)
     \<and> fbp (snd (abort_transaction db2)) = drop (length (fbp db) - (fpow db * 2 + 1)) (fbp db)
     \<and> trfbp (snd (abort_transaction db2)) = []
     \<and> (if length (fbp db) \<le> fpow db * 2 + 1
         then fbp (snd (abort_transaction db2)) = fbp db
         else length (fbp (snd (abort_transaction db2))) = fpow db * 2 + 1)"
proof -
  from begin_transaction_impl_fbp [OF assms(1)]
  have ok: ok and tr: "trfbp db1 = (if fbpnum db > 0
      then escape_fbp (fpow db * 2 + 1) (fbp db) (trfbp db) else trfbp db)"
    by simp_all
  have e: "escape_fbp (fpow db * 2 + 1) (fbp db) [] = drop (length (fbp db) - (fpow db * 2 + 1)) (fbp db)"
    using escape_fbp_append [of "fbp db" "[]" "fpow db * 2 + 1"] assms(3) by simp
  have t1: "trfbp db1 = drop (length (fbp db) - (fpow db * 2 + 1)) (fbp db)"
  proof (cases "fbpnum db > 0")
    case True
    with tr e assms(2) show ?thesis by simp
  next
    case False
    with assms(4) have "fbp db = []" by simp
    with tr False assms(2) show ?thesis by simp
  qed
  from abort_transaction_fbp [of db2] assms(5) t1
  have a: "fbp (snd (abort_transaction db2)) = drop (length (fbp db) - (fpow db * 2 + 1)) (fbp db)"
    and b: "trfbp (snd (abort_transaction db2)) = []"
    by simp_all
  from ok t1 a b show ?thesis by simp
qed

lemma example_pool8_simps:
  "fbp example_pool8 = [\<lparr>fb_off = 8192, fb_rsiz = 16\<rparr>, \<lparr>fb_off = 7168, fb_rsiz = 32\<rparr>,
                        \<lparr>fb_off = 6144, fb_rsiz = 48\<rparr>, \<lparr>fb_off = 5120, fb_rsiz = 64\<rparr>,
                        \<lparr>fb_off = 4096, fb_rsiz = 80\<rparr>, \<lparr>fb_off = 3072, fb_rsiz = 96\<rparr>,
                        \<lparr>fb_off = 2048, fb_rsiz = 112\<rparr>, \<lparr>fb_off = 1024, fb_rsiz = 128\<rparr>]"
  "fbpnum example_pool8 = 8" "fpow example_pool8 = 3" "trfbp example_pool8 = []"
  by (simp_all add: example_pool8_def example_db_def calc_meta_def Let_def HashDB_new_def)

lemma example_pool4_more:
  "fpow example_pool4 = 2" "trfbp example_pool4 = []"
  by (simp_all add: example_pool4_def example_db_def calc_meta_def Let_def HashDB_new_def)

lemma trfbp_insert_free_block: "trfbp (insert_free_block db off rsiz) = trfbp db"
  by (simp add: insert_free_block_def escape_cursors_def Let_def split: list.splits)

theorem abort_restores_escaped_pool_witness:
  "begin_transaction_impl example_pool4 = (True, snd (begin_transaction_impl example_pool4))
   \<and> trfbp example_pool4 = []
   \<and> sorted_wrt fb_less (fbp example_pool4)
   \<and> length (fbp example_pool4) \<le> fbpnum example_pool4
   \<and> trfbp (insert_free_block (snd (begin_transaction_impl example_pool4)) 16384 256)
        = trfbp (snd (begin_transaction_impl example_pool4))
   \<and> length (fbp example_pool4) \<le> fpow example_pool4 * 2 + 1
   \<and> fbp (snd (abort_transaction
                  (insert_free_block (snd (begin_transaction_impl example_pool4)) 16384 256)))
        = fbp example_pool4"
proof -
  have b: "begin_transaction_impl example_pool4 = (True, snd (begin_transaction_impl example_pool4))"
    using begin_transaction_impl_fbp [of example_pool4 "fst (begin_transaction_impl example_pool4)"
        "snd (begin_transaction_impl example_pool4)"]
    by (cases "begin_transaction_impl example_pool4") simp
  have h: "trfbp example_pool4 = []" "sorted_wrt fb_less (fbp example_pool4)"
    "length (fbp example_pool4) \<le> fbpnum example_pool4"
    by (simp_all add: example_pool4_simps example_pool4_more fb_less_def)
  have t: "trfbp (insert_free_block (snd (begin_transaction_impl example_pool4)) 16384 256)
        = trfbp (snd (begin_transaction_impl example_pool4))"
    by (rule trfbp_insert_free_block)
  have l: "length (fbp example_pool4) \<le> fpow example_pool4 * 2 + 1"
    by (simp add: example_pool4_simps example_pool4_more)
  from abort_restores_escaped_pool [OF b h t] l
  have "fbp (snd (abort_transaction
                  (insert_free_block (snd (begin_transaction_impl example_pool4)) 16384 256)))
        = fbp example_pool4"
    by simp
  with b h t l show ?thesis by blast
qed

text \<open>
  The claim C4 as it is stated fails: with \<open>F = 3\<close> the pool holds up to 8 blocks and the
  rollback copy 7; a transaction begun on a full pool and aborted at once comes back
  without the smallest block.
\<close>

theorem abort_restores_pool_counterexample:
  "fst (begin_transaction_impl example_pool8)
   \<and> length (fbp example_pool8) = 8
   \<and> fbp (snd (abort_transaction (snd (begin_transaction_impl example_pool8))))
        = tl (fbp example_pool8)
   \<and> fbp (snd (abort_transaction (snd (begin_transaction_impl example_pool8))))
        \<noteq> fbp example_pool8"
proof -
  obtain ok db1 where b: "begin_transaction_impl example_pool8 = (ok, db1)"
    by (cases "begin_transaction_impl example_pool8") auto
  from begin_transaction_impl_fbp [OF b]
  have ok: ok and tr: "trfbp db1 = escape_fbp 7 (fbp example_pool8) []"
    by (simp_all add: example_pool8_simps)
  have s: "sorted_wrt fb_less (fbp example_pool8 @ [])"
    by (simp add: example_pool8_simps fb_less_def)
  from tr escape_fbp_append [OF s, of 7]
  have "trfbp db1 = tl (fbp example_pool8)"
    by (simp add: example_pool8_simps)
  with abort_transaction_fbp [of db1] b ok show ?thesis
    by (simp add: example_pool8_simps)
qed

subsection \<open>The write-ahead log of the block file\<close>

lemma length_be_bytes [simp]: "length (be_bytes w n) = w"
  by (induction w arbitrary: n) auto

lemma be_nat_snoc: "be_nat (xs @ [b]) = be_nat xs * 256 + unat b"
  by (simp add: be_nat_def)

lemma unat_of_nat_byte: "unat (of_nat n :: byte) = n mod 256"
  by (simp add: unat_of_nat)

lemma be_nat_be_bytes: "be_nat (be_bytes w n) = n mod 256 ^ w"
proof (induction w arbitrary: n)
  case 0
  then show ?case by (simp add: be_nat_def)
next
  case (Suc w)
  have "be_nat (be_bytes (Suc w) n) = (n div 256 mod 256 ^ w) * 256 + n mod 256"
    by (simp add: be_nat_snoc Suc unat_of_nat_byte)
  also have "\<dots> = n mod 256 ^ Suc w"
    by (simp add: mod_mult2_eq)
  finally show ?case .
qed

lemma length_hton64 [simp]: "length (hton64 n) = 8"
  by (simp add: hton64_def)

lemma ntoh64_hton64: "n < 2 ^ 64 \<Longrightarrow> ntoh64 (hton64 n @ rest) = n"
  by (simp add: ntoh64_def hton64_def be_nat_be_bytes)

lemma length_load_bytes [simp]: "length (load_bytes m off n) = n"
  by (simp add: load_bytes_def)

lemma nth_load_bytes [simp]: "i < n \<Longrightarrow> load_bytes m off n ! i = m (off + i)"
  by (simp add: load_bytes_def)

lemma load_bytes_eq_iff: "load_bytes m off n = bs \<longleftrightarrow> length bs = n \<and> (\<forall>i<n. m (off + i) = bs ! i)"
  by (auto simp: list_eq_iff_nth_eq)

lemma load_bytes_add: "load_bytes m off (a + b) = load_bytes m off a @ load_bytes m (off + a) b"
  by (simp add: load_bytes_eq_iff nth_append)

lemma store_bytes_apply: "store_bytes m off buf i = (if off \<le> i \<and> i < off + length buf then buf ! (i - off) else m i)"
  by (simp add: store_bytes_def)

lemma store_bytes_load_same [simp]: "store_bytes m off (load_bytes m off n) = m"
  by (auto simp: store_bytes_def fun_eq_iff)

lemma store_bytes_nil [simp]: "store_bytes m off [] = m"
  by (auto simp: store_bytes_def fun_eq_iff)

lemma walreplay_foldr:
  "i \<le> length msgs \<Longrightarrow> walreplay m msgs i = foldr wal_step (take i msgs) m"
proof (induction i arbitrary: m)
  case 0
  then show ?case by simp
next
  case (Suc i)
  have "walreplay m msgs (Suc i) = walreplay (wal_step (msgs ! i) m) msgs i"
    by (simp add: wal_step_def)
  also have "\<dots> = foldr wal_step (take i msgs) (wal_step (msgs ! i) m)"
    using Suc by simp
  also have "\<dots> = foldr wal_step (take (Suc i) msgs) m"
    using Suc.prems by (simp add: take_Suc_conv_app_nth)
  finally show ?case .
qed

lemma walreplay_undo: "walreplay m msgs (length msgs) = wal_undo msgs m"
  by (simp add: walreplay_foldr wal_undo_def)

lemma wal_undo_Cons:
  "wal_undo (a # ms) m i =
     (if msg_off a \<le> i \<and> i < msg_off a + length (msg_body a) then msg_body a ! (i - msg_off a)
      else wal_undo ms m i)"
  by (simp add: wal_undo_def wal_step_def store_bytes_apply)

lemma wal_covered_Cons:
  "wal_covered (a # ms) i \<longleftrightarrow>
     (msg_off a \<le> i \<and> i < msg_off a + length (msg_body a)) \<or> wal_covered ms i"
  by (simp add: wal_covered_def)

lemma wal_undo_covered: "wal_covered ms i \<Longrightarrow> wal_undo ms m i = wal_undo ms m' i"
  by (induction ms) (auto simp: wal_undo_Cons wal_covered_Cons, simp add: wal_covered_def)

lemma wal_undo_uncovered: "\<not> wal_covered ms i \<Longrightarrow> wal_undo ms m i = m i"
  by (induction ms) (auto simp: wal_undo_Cons wal_covered_Cons, simp add: wal_undo_def)


lemma length_wal_enc: "length (wal_enc m) = 17 + length (msg_body m)"
  by (simp add: wal_enc_def)

lemma take17_wal_enc:
  "take 17 (wal_enc m @ rest) = [WALMSGMAGIC] @ hton64 (msg_off m) @ hton64 (length (msg_body m))"
  by (simp add: wal_enc_def)

lemma load_bytes_prefix:
  assumes "load_bytes m pos (length (a @ b)) = a @ b"
  shows "load_bytes m pos (length a) = a" and "load_bytes m (pos + length a) (length b) = b"
  using assms by (simp_all add: load_bytes_add)

lemma WALMSGMAGIC_neq0: "WALMSGMAGIC \<noteq> 0"
  by (simp add: WALMSGMAGIC_def)

lemma walread_parse:
  assumes "load_bytes (core_walmap core) pos (length (concat (map wal_enc ms))) = concat (map wal_enc ms)"
    and "\<forall>i\<ge>pos + length (concat (map wal_enc ms)). core_walmap core i = 0"
    and "pos + length (concat (map wal_enc ms)) \<le> core_walfsiz core"
    and "rem = core_walfsiz core - pos"
    and "\<forall>m\<in>set ms. msg_off m < 2 ^ 63 \<and> length (msg_body m) < 2 ^ 63"
  shows "\<exists>pos' rem' ms'. walread core pos rem acc = (False, pos', rem', acc @ ms')
           \<and> (\<forall>c. wal_undo ms' c = wal_undo ms c)
           \<and> (rem' \<noteq> 0 \<longrightarrow> myread core pos' 1 = Some [0])"
  using assms
proof (induction ms arbitrary: pos rem acc)
  case Nil
  then have z: "\<forall>i\<ge>pos. core_walmap core i = 0" by simp
  show ?case
  proof (cases "rem \<ge> 17")
    case True
    with Nil have "myread core pos 17 = Some (load_bytes (core_walmap core) pos 17)"
      by (simp add: myread_def)
    moreover have "hd (load_bytes (core_walmap core) pos 17) = 0"
      using z by (simp add: load_bytes_def upt_rec [of pos])
    ultimately have "walread core pos rem acc = (False, pos + 17, 0, acc)"
      using True by (subst walread.simps) simp
    then show ?thesis by simp
  next
    case False
    then have w: "walread core pos rem acc = (False, pos, rem, acc)"
      by (subst walread.simps) simp
    have "rem \<noteq> 0 \<Longrightarrow> myread core pos 1 = Some [0]"
      using Nil z by (simp add: myread_def load_bytes_def)
    with w show ?thesis by simp
  qed
next
  case (Cons m ms)
  let ?E = "concat (map wal_enc ms)"
  let ?n = "length (msg_body m)"
  from Cons.prems(1) have l: "load_bytes (core_walmap core) pos (length (wal_enc m @ ?E)) = wal_enc m @ ?E"
    by simp
  from load_bytes_prefix [OF l]
  have l1: "load_bytes (core_walmap core) pos (17 + ?n) = wal_enc m"
    and l2: "load_bytes (core_walmap core) (pos + (17 + ?n)) (length ?E) = ?E"
    by (simp_all add: length_wal_enc)
  from Cons.prems(3,4) have rem: "rem \<ge> 17 + ?n + length ?E" "pos + rem = core_walfsiz core"
    by (simp_all add: length_wal_enc)
  let ?H = "[WALMSGMAGIC] @ hton64 (msg_off m) @ hton64 ?n"
  from l1 have l1': "load_bytes (core_walmap core) pos (length (?H @ msg_body m)) = ?H @ msg_body m"
    by (simp add: wal_enc_def)
  from load_bytes_prefix [OF l1']
  have buf: "load_bytes (core_walmap core) pos 17 = ?H"
    and body: "load_bytes (core_walmap core) (pos + 17) ?n = msg_body m"
    by simp_all
  from Cons.prems(5) have b: "msg_off m < 2 ^ 63" "?n < 2 ^ 63" by simp_all
  have off: "ntoh64 (drop 1 (load_bytes (core_walmap core) pos 17)) = msg_off m"
    using b by (simp add: buf ntoh64_hton64)
  have siz: "ntoh64 (drop 9 (load_bytes (core_walmap core) pos 17)) = ?n"
    using b ntoh64_hton64 [of ?n "[]"] by (simp add: buf)
  have mr: "myread core pos 17 = Some (load_bytes (core_walmap core) pos 17)"
    using rem by (simp add: myread_def)
  have h: "hd (load_bytes (core_walmap core) pos 17) = WALMSGMAGIC"
    by (simp add: buf)
  show ?case
  proof (cases "rem - 17 > 0")
    case False
    with rem have e0: "?n + length ?E = 0" "rem = 17" by linarith+
    then have e: "?n = 0" "length ?E = 0" "rem = 17" by simp_all
    have "ms = []"
    proof (cases ms)
      case (Cons a as)
      with e(2) have "length (wal_enc a) = 0" by simp
      then show ?thesis by (simp add: length_wal_enc)
    qed simp
    have "walread core pos rem acc = walread core (pos + 17) 0 acc"
      using e mr h WALMSGMAGIC_neq0 by (subst walread.simps [of core pos rem acc]) simp
    also have "\<dots> = (False, pos + 17, 0, acc)"
      by (subst walread.simps) simp
    finally have w: "walread core pos rem acc = (False, pos + 17, 0, acc @ [])" by simp
    have "\<forall>c. wal_undo [] c = wal_undo (m # ms) c"
      using e \<open>ms = []\<close> by (simp add: wal_undo_def wal_step_def)
    with w show ?thesis by blast
  next
    case True
    have mb: "myread core (pos + 17) ?n = Some (msg_body m)"
      using rem body by (simp add: myread_def)
    have mm: "\<lparr>msg_off = msg_off m, msg_body = msg_body m\<rparr> = m" by simp
    have nl: "\<not> rem - 17 < ?n" using rem by simp
    have "walread core pos rem acc = walread core (pos + 17 + ?n) (rem - 17 - ?n)
            (acc @ [\<lparr>msg_off = msg_off m, msg_body = msg_body m\<rparr>])"
      using True mr h WALMSGMAGIC_neq0 off siz b nl mb
      by (subst walread.simps [of core pos rem acc]) (simp add: Let_def)
    then have step: "walread core pos rem acc = walread core (pos + 17 + ?n) (rem - 17 - ?n) (acc @ [m])"
      by (simp only: mm)
    have p1: "load_bytes (core_walmap core) (pos + 17 + ?n) (length ?E) = ?E"
      using l2 by (simp add: add.assoc)
    have p2: "\<forall>i\<ge>pos + 17 + ?n + length ?E. core_walmap core i = 0"
      using Cons.prems(2) by (simp add: length_wal_enc add.assoc)
    have p3: "pos + 17 + ?n + length ?E \<le> core_walfsiz core"
      using rem by simp
    have p4: "rem - 17 - ?n = core_walfsiz core - (pos + 17 + ?n)"
      using rem by simp
    have p5: "\<forall>m\<in>set ms. msg_off m < 2 ^ 63 \<and> length (msg_body m) < 2 ^ 63"
      using Cons.prems(5) by simp
    from Cons.IH [OF p1 p2 p3 p4 p5, of "acc @ [m]"]
    obtain pos' rem' ms' where
      r: "walread core (pos + 17 + ?n) (rem - 17 - ?n) (acc @ [m]) = (False, pos', rem', (acc @ [m]) @ ms')"
      and u: "\<forall>c. wal_undo ms' c = wal_undo ms c"
      and z: "rem' \<noteq> 0 \<longrightarrow> myread core pos' 1 = Some [0]"
      by blast
    from step r have "walread core pos rem acc = (False, pos', rem', acc @ (m # ms'))" by simp
    moreover from u have "\<forall>c. wal_undo (m # ms') c = wal_undo (m # ms) c"
      by (simp add: wal_undo_def)
    ultimately show ?thesis using z by blast
  qed
qed


lemma wal_region_Some:
  "wal_region core off0 siz0 base = Some (o', s) \<Longrightarrow>
     o' = max off0 base \<and> o' < core_trmsiz core \<and> o' + s = min (core_trmsiz core) (off0 + siz0)
     \<and> o' \<le> off0 + siz0"
  by (auto simp: wal_region_def Let_def split: if_splits)

lemma wal_region_None:
  "wal_region core off0 siz0 base = None \<Longrightarrow>
     (off0 + siz0 \<le> base \<and> off0 < base) \<or> core_trmsiz core \<le> max off0 base"
  by (auto simp: wal_region_def Let_def split: if_splits)

lemma wal_undo_append: "wal_undo (ms @ ms') m = wal_undo ms (wal_undo ms' m)"
  by (simp add: wal_undo_def)

lemma wal_covered_append: "wal_covered (ms @ ms') i \<longleftrightarrow> wal_covered ms i \<or> wal_covered ms' i"
  by (auto simp: wal_covered_def)

text \<open>One logged change of the content keeps what a replay gives on the guarded range.\<close>

lemma wal_undo_logged_change:
  assumes inv: "\<forall>i. base \<le> i \<and> i < osiz \<longrightarrow>
            wal_undo ms (core_map core) i = m0 i \<and> (core_trmsiz core \<le> i \<longrightarrow> wal_covered ms i)"
    and ch: "\<forall>i. i < core_trmsiz core \<and> (i < off0 \<or> off0 + n \<le> i) \<longrightarrow> m' i = core_map core i"
    and i: "base \<le> i" "i < osiz"
  shows "wal_undo (ms @ wal_message core off0 n base) m' i = m0 i"
proof (cases "wal_covered ms i")
  case True
  then have "wal_undo ms (wal_undo (wal_message core off0 n base) m') i
      = wal_undo ms (core_map core) i"
    by (rule wal_undo_covered)
  with inv i show ?thesis by (simp add: wal_undo_append)
next
  case False
  with inv i have lt: "i < core_trmsiz core" and v: "core_map core i = m0 i"
    by (auto simp: wal_undo_uncovered not_le)
  have "wal_undo (wal_message core off0 n base) m' i = core_map core i"
  proof (cases "wal_region core off0 n base")
    case None
    from wal_region_None [OF None] i lt have "i < off0 \<or> off0 + n \<le> i" by auto
    with ch lt None show ?thesis by (simp add: wal_message_def wal_undo_def)
  next
    case (Some r)
    obtain o' s where r: "r = (o', s)" by (cases r)
    from wal_region_Some [OF Some [unfolded r]]
    have f: "o' = max off0 base" "o' + s = min (core_trmsiz core) (off0 + n)" by simp_all
    show ?thesis
    proof (cases "o' \<le> i \<and> i < o' + s")
      case True
      then have "i - o' < s" "o' + (i - o') = i" by auto
      then have "load_bytes (core_map core) o' s ! (i - o') = core_map core i"
        by (simp only: nth_load_bytes)
      with True Some r show ?thesis
        by (simp add: wal_message_def wal_undo_def wal_step_def store_bytes_apply)
    next
      case False
      with f i lt have "i < off0 \<or> off0 + n \<le> i" by auto
      with ch lt have "m' i = core_map core i" by simp
      with False Some r show ?thesis
        by (auto simp: wal_message_def wal_undo_def wal_step_def store_bytes_apply)
    qed
  qed
  with False v show ?thesis
    by (simp add: wal_undo_append wal_undo_uncovered)
qed

lemma wal_message_bound:
  assumes m: "msg \<in> set (wal_message core off0 n base)"
  shows "msg_off msg + length (msg_body msg) \<le> core_trmsiz core"
proof (cases "wal_region core off0 n base")
  case None
  with m show ?thesis by (simp add: wal_message_def)
next
  case (Some r)
  obtain o' s where r: "r = (o', s)" by (cases r)
  from wal_region_Some [OF Some [unfolded r]]
  have "o' + s = min (core_trmsiz core) (off0 + n)" by blast
  then have "o' + s \<le> core_trmsiz core" by linarith
  with m Some r show ?thesis by (simp add: wal_message_def)
qed

lemma wal_image_walwrite:
  assumes "wal_image core osiz ms"
  shows "wal_image (snd (walwrite core off0 n base)) osiz (ms @ wal_message core off0 n base)"
proof (cases "wal_region core off0 n base")
  case None
  with assms show ?thesis by (simp add: walwrite_def wal_message_def)
next
  case (Some r)
  obtain o' s where r: "r = (o', s)" by (cases r)
  let ?msg = "\<lparr>msg_off = o', msg_body = load_bytes (core_map core) o' s\<rparr>"
  let ?w = "core_walsiz core"
  let ?wm = "store_bytes (core_walmap core) ?w (wal_enc ?msg)"
  have enc: "[WALMSGMAGIC] @ hton64 o' @ hton64 s @ load_bytes (core_map core) o' s = wal_enc ?msg"
    by (simp add: wal_enc_def)
  have len: "length (wal_enc ?msg) = 17 + s" by (simp add: length_wal_enc)
  from assms have im: "load_bytes (core_walmap core) 0 ?w
      = WALMAGICDATA @ hton64 osiz @ concat (map wal_enc ms)"
    and z: "\<forall>i\<ge>?w. core_walmap core i = 0"
    and ws: "?w = 12 + length (concat (map wal_enc ms))"
    and fs: "core_walfsiz core = max WALMAPSIZ ?w" and fd: "core_walfd core"
    unfolding wal_image_def by blast+
  define k where "k = length (wal_enc ?msg)"
  have a: "load_bytes ?wm 0 ?w = load_bytes (core_walmap core) 0 ?w"
    by (simp add: load_bytes_eq_iff store_bytes_apply)
  have b: "load_bytes ?wm ?w k = wal_enc ?msg"
    unfolding k_def by (simp add: load_bytes_eq_iff store_bytes_apply)
  have "load_bytes ?wm 0 (?w + k) = load_bytes ?wm 0 ?w @ load_bytes ?wm (0 + ?w) k"
    by (rule load_bytes_add)
  with a b im have c: "load_bytes ?wm 0 (?w + k)
      = WALMAGICDATA @ hton64 osiz @ concat (map wal_enc (ms @ [?msg]))"
    by simp
  have d: "\<forall>i\<ge>?w + k. ?wm i = 0"
    using z by (simp add: store_bytes_apply k_def)
  have e: "?w + k = 12 + length (concat (map wal_enc (ms @ [?msg])))"
    using ws by (simp add: k_def)
  have "wal_image (core\<lparr>core_walmap := ?wm,
        core_walfsiz := max (core_walfsiz core) (?w + k), core_walsiz := ?w + k\<rparr>)
      osiz (ms @ [?msg])"
    unfolding wal_image_def using c d e fs fd by simp
  then have "wal_image (core\<lparr>core_walmap := ?wm,
        core_walfsiz := max (core_walfsiz core) (?w + (17 + s)), core_walsiz := ?w + (17 + s)\<rparr>)
      osiz (ms @ [?msg])"
    using len by (simp add: k_def)
  with Some r enc show ?thesis
    by (simp add: walwrite_def wal_message_def Let_def add.assoc)
qed


lemma wal_image_fields:
  "core_walfd c' = core_walfd c \<Longrightarrow> core_walsiz c' = core_walsiz c \<Longrightarrow>
   core_walfsiz c' = core_walfsiz c \<Longrightarrow> core_walmap c' = core_walmap c \<Longrightarrow>
   wal_image c' osiz ms = wal_image c osiz ms"
  by (simp add: wal_image_def)

lemma walwrite_fields:
  "core_map (snd (walwrite core off0 n base)) = core_map core"
  "core_tran (snd (walwrite core off0 n base)) = core_tran core"
  "core_trbase (snd (walwrite core off0 n base)) = core_trbase core"
  "core_trmsiz (snd (walwrite core off0 n base)) = core_trmsiz core"
  "core_lsiz (snd (walwrite core off0 n base)) = core_lsiz core"
  "core_psiz (snd (walwrite core off0 n base)) = core_psiz core"
  "core_msiz (snd (walwrite core off0 n base)) = core_msiz core"
  "core_pagesize (snd (walwrite core off0 n base)) = core_pagesize core"
  "core_trhard (snd (walwrite core off0 n base)) = core_trhard core"
  "fst (walwrite core off0 n base)"
  by (simp_all add: walwrite_def Let_def split: option.splits)

lemma wal_inv_logged:
  assumes inv: "wal_inv core osiz base m0 ms"
    and ch: "\<forall>i. i < core_trmsiz core \<and> (i < off0 \<or> off0 + n \<le> i) \<longrightarrow> m' i = core_map core i"
    and t: "t \<le> core_trmsiz core"
    and cov: "\<forall>i. base \<le> i \<and> t \<le> i \<and> i < core_trmsiz core
                \<longrightarrow> wal_covered (wal_message core off0 n base) i"
    and c': "core_walfd c' = core_walfd (snd (walwrite core off0 n base))"
      "core_walsiz c' = core_walsiz (snd (walwrite core off0 n base))"
      "core_walfsiz c' = core_walfsiz (snd (walwrite core off0 n base))"
      "core_walmap c' = core_walmap (snd (walwrite core off0 n base))"
      "core_tran c' = core_tran core" "core_trbase c' = core_trbase core"
      "core_trmsiz c' = t" "core_map c' = m'"
  shows "wal_inv c' osiz base m0 (ms @ wal_message core off0 n base)"
proof -
  from inv have im: "wal_image core osiz ms" and tr: "core_tran core" "core_trbase core = base"
    and le: "core_trmsiz core \<le> osiz"
    and bd: "list_all (\<lambda>msg. msg_off msg + length (msg_body msg) \<le> osiz) ms"
    and r: "\<forall>i. base \<le> i \<and> i < osiz \<longrightarrow>
             wal_undo ms (core_map core) i = m0 i
             \<and> (core_trmsiz core \<le> i \<longrightarrow> wal_covered ms i)"
    unfolding wal_inv_def by blast+
  have 1: "wal_image c' osiz (ms @ wal_message core off0 n base)"
    using wal_image_walwrite [OF im, of off0 n base] wal_image_fields [OF c'(1-4)] by simp
  have 2: "list_all (\<lambda>msg. msg_off msg + length (msg_body msg) \<le> osiz)
             (ms @ wal_message core off0 n base)"
    using bd le wal_message_bound [of _ core off0 n base]
    by (fastforce simp: list_all_iff)
  have 3: "wal_undo (ms @ wal_message core off0 n base) m' i = m0 i"
    if "base \<le> i" "i < osiz" for i
    using wal_undo_logged_change [OF r ch that] .
  have 4: "wal_covered (ms @ wal_message core off0 n base) i"
    if "base \<le> i" "i < osiz" "t \<le> i" for i
    using that r cov by (cases "i < core_trmsiz core") (auto simp: wal_covered_append)
  from 1 2 3 4 tr le t c'(5-8) show ?thesis
    unfolding wal_inv_def by auto
qed

lemma wal_inv_unlogged:
  assumes inv: "wal_inv core osiz base m0 ms"
    and ch: "\<forall>i. i < core_trmsiz core \<longrightarrow> m' i = core_map core i"
    and c': "core_walfd c' = core_walfd core" "core_walsiz c' = core_walsiz core"
      "core_walfsiz c' = core_walfsiz core" "core_walmap c' = core_walmap core"
      "core_tran c' = core_tran core" "core_trbase c' = core_trbase core"
      "core_trmsiz c' = core_trmsiz core" "core_map c' = m'"
  shows "wal_inv c' osiz base m0 ms"
proof -
  from inv have r: "\<forall>i. base \<le> i \<and> i < osiz \<longrightarrow>
             wal_undo ms (core_map core) i = m0 i
             \<and> (core_trmsiz core \<le> i \<longrightarrow> wal_covered ms i)"
    unfolding wal_inv_def by blast
  have "wal_undo ms m' i = m0 i" if "base \<le> i" "i < osiz" for i
  proof (cases "wal_covered ms i")
    case True
    from wal_undo_covered [OF True, of m' "core_map core"] r that show ?thesis by simp
  next
    case False
    with r that have lt: "i < core_trmsiz core" by (auto simp: not_le)
    from r that have "wal_undo ms (core_map core) i = m0 i" by blast
    with False have "core_map core i = m0 i" by (simp add: wal_undo_uncovered)
    with ch lt False show ?thesis by (simp add: wal_undo_uncovered)
  qed
  with inv wal_image_fields [OF c'(1-4)] c'(5-8) show ?thesis
    unfolding wal_inv_def by auto
qed


lemma wal_undo_message_same: "wal_undo (wal_message core off0 n b) (core_map core) = core_map core"
  by (simp add: wal_message_def wal_undo_def wal_step_def split: option.splits)

lemma wal_inv_explicit:
  assumes inv: "wal_inv core osiz base m0 ms"
  shows "wal_inv (snd (walwrite core off0 n b)) osiz base m0 (ms @ wal_message core off0 n b)"
proof -
  from inv have im: "wal_image core osiz ms" and le: "core_trmsiz core \<le> osiz"
    and bd: "list_all (\<lambda>msg. msg_off msg + length (msg_body msg) \<le> osiz) ms"
    unfolding wal_inv_def by blast+
  have 2: "list_all (\<lambda>msg. msg_off msg + length (msg_body msg) \<le> osiz)
             (ms @ wal_message core off0 n b)"
    using bd le wal_message_bound [of _ core off0 n b]
    by (fastforce simp: list_all_iff)
  from inv wal_image_walwrite [OF im, of off0 n b] 2 show ?thesis
    unfolding wal_inv_def
    by (auto simp: walwrite_fields wal_undo_append wal_undo_message_same wal_covered_append)
qed

lemma File_write_snd:
  "core_tran core \<Longrightarrow> buf \<noteq> [] \<Longrightarrow>
     snd (File_write core off buf) =
       (snd (walwrite core off (length buf) (core_trbase core)))
         \<lparr>core_map := store_bytes (core_map core) off buf,
          core_psiz := write_psiz core (off + length buf),
          core_lsiz := (if off + length buf > core_lsiz core then off + length buf
                        else core_lsiz core)\<rparr>"
  using walwrite_fields [of core off "length buf" "core_trbase core"]
  by (cases "walwrite core off (length buf) (core_trbase core)")
     (simp add: File_write_def Let_def write_psiz_def walwrite_fields)

lemma File_write_fast_snd:
  "core_tran core \<Longrightarrow>
     snd (File_write_fast core off buf) =
       (snd (walwrite core off (length buf) (core_trbase core)))
         \<lparr>core_map := store_bytes (core_map core) off buf\<rparr>"
  using walwrite_fields [of core off "length buf" "core_trbase core"]
  by (cases "walwrite core off (length buf) (core_trbase core)")
     (simp add: File_write_fast_def Let_def)

lemma File_truncate_snd:
  "core_tran core \<Longrightarrow> siz < core_trmsiz core \<Longrightarrow>
     snd (File_truncate core siz) =
       (snd (walwrite core siz (core_trmsiz core - siz) (core_trbase core)))
         \<lparr>core_trmsiz := siz, core_map := cut_bytes (core_map core) siz,
          core_lsiz := siz, core_psiz := siz\<rparr>"
  using walwrite_fields [of core siz "core_trmsiz core - siz" "core_trbase core"]
  by (cases "walwrite core siz (core_trmsiz core - siz) (core_trbase core)")
     (simp add: File_truncate_def Let_def)

lemma wal_truncate_covered:
  assumes "siz < core_trmsiz core" "base \<le> i" "siz \<le> i" "i < core_trmsiz core"
  shows "wal_covered (wal_message core siz (core_trmsiz core - siz) base) i"
  using assms
  by (auto simp: wal_message_def wal_region_def wal_covered_def Let_def)

lemma wal_inv_op:
  assumes inv: "wal_inv core osiz base m0 ms"
  shows "wal_inv (apply_op core op) osiz base m0 (ms @ recorded_op core op)"
proof -
  from inv have tr: "core_tran core" and tb: "core_trbase core = base"
    unfolding wal_inv_def by blast+
  show ?thesis
  proof (cases op)
    case (OpWrite off buf)
    show ?thesis
    proof (cases "buf = []")
      case True
      with inv OpWrite show ?thesis by (simp add: File_write_def)
    next
      case False
      note n = False
      have "wal_inv (snd (File_write core off buf)) osiz base m0
              (ms @ wal_message core off (length buf) base)"
        by (rule wal_inv_logged [OF inv, where m' = "store_bytes (core_map core) off buf"
              and t = "core_trmsiz core"])
           (auto simp: File_write_snd [OF tr n] tb store_bytes_apply walwrite_fields)
      with OpWrite False tr tb show ?thesis by simp
    qed
  next
    case (OpWriteFast off buf)
    have "wal_inv (snd (File_write_fast core off buf)) osiz base m0
            (ms @ wal_message core off (length buf) base)"
      by (rule wal_inv_logged [OF inv, where m' = "store_bytes (core_map core) off buf"
            and t = "core_trmsiz core"])
         (auto simp: File_write_fast_snd [OF tr] tb store_bytes_apply walwrite_fields)
    with OpWriteFast tr tb show ?thesis by simp
  next
    case (OpTruncate siz)
    show ?thesis
    proof (cases "siz < core_trmsiz core")
      case True
      have "wal_inv (snd (File_truncate core siz)) osiz base m0
              (ms @ wal_message core siz (core_trmsiz core - siz) base)"
        by (rule wal_inv_logged [OF inv, where m' = "cut_bytes (core_map core) siz"
              and t = siz])
           (use True in \<open>auto simp: File_truncate_snd [OF tr True] tb cut_bytes_def
              walwrite_fields wal_truncate_covered\<close>)
      with OpTruncate True tr tb show ?thesis by simp
    next
      case False
      have "wal_inv (snd (File_truncate core siz)) osiz base m0 ms"
        by (rule wal_inv_unlogged [OF inv, where m' = "cut_bytes (core_map core) siz"])
           (use False in \<open>auto simp: File_truncate_def Let_def cut_bytes_def\<close>)
      with OpTruncate False show ?thesis by simp
    qed
  next
    case (OpWriteTransaction off siz)
    with wal_inv_explicit [OF inv, of off siz 0] show ?thesis
      by (simp add: File_write_transaction_def)
  qed
qed

lemma wal_inv_ops:
  "wal_inv core osiz base m0 ms \<Longrightarrow>
     wal_inv (apply_ops core ops) osiz base m0 (ms @ recorded core ops)"
proof (induction ops arbitrary: core ms)
  case Nil
  then show ?case by simp
next
  case (Cons op ops)
  from Cons.IH [OF wal_inv_op [OF Cons.prems, of op]] show ?case by simp
qed


lemma WALMAPSIZ_ge: "12 \<le> WALMAPSIZ"
  by (simp add: WALMAPSIZ_def)

lemma length_WALMAGICDATA [simp]: "length WALMAGICDATA = 4"
  by (simp add: WALMAGICDATA_def)

lemma wal_inv_begin:
  assumes "wal_clear core0"
  shows "wal_inv (snd (File_begin_transaction core0 hard base)) (core_lsiz core0) base
           (core_map core0) []"
proof -
  let ?wp = "WALMAGICDATA @ hton64 (core_lsiz core0)"
  let ?c1 = "if \<not> core_walfd core0
             then core0\<lparr>core_walfd := True, core_walmap := (\<lambda>i. 0), core_walfsiz := WALMAPSIZ\<rparr>
             else core0"
  from assms have w: "core_walmap ?c1 = (\<lambda>i. 0)" "core_walfsiz ?c1 = WALMAPSIZ" "core_walfd ?c1"
    by (auto simp: wal_clear_def)
  have m: "core_map ?c1 = core_map core0" "core_lsiz ?c1 = core_lsiz core0"
    by simp_all
  have l: "load_bytes (store_bytes (core_walmap ?c1) 0 ?wp) 0 12 = ?wp"
    by (simp add: load_bytes_eq_iff store_bytes_apply)
  have z: "\<forall>i\<ge>12. store_bytes (core_walmap ?c1) 0 ?wp i = 0"
    using w(1) by (simp add: store_bytes_apply)
  show ?thesis
    unfolding wal_inv_def wal_image_def File_begin_transaction_def Let_def
    using l z w(2,3) m WALMAPSIZ_ge
    by (simp add: wal_undo_def max_def)
qed

lemma walapply_inv:
  assumes inv: "wal_inv core osiz base m0 ms" and o: "osiz < 2 ^ 63"
  shows "walapply core =
           (True, core\<lparr>core_map := cut_bytes (wal_undo ms (core_map core)) osiz,
                        core_lsiz := osiz, core_psiz := osiz\<rparr>)"
proof -
  let ?E = "concat (map wal_enc ms)"
  let ?wm = "core_walmap core"
  from inv have im: "load_bytes ?wm 0 (core_walsiz core) = WALMAGICDATA @ hton64 osiz @ ?E"
    and z: "\<forall>i\<ge>core_walsiz core. ?wm i = 0"
    and ws: "core_walsiz core = 12 + length ?E"
    and fs: "core_walfsiz core = max WALMAPSIZ (core_walsiz core)"
    and bd: "list_all (\<lambda>msg. msg_off msg + length (msg_body msg) \<le> osiz) ms"
    unfolding wal_inv_def wal_image_def by blast+
  from im ws have "load_bytes ?wm 0 (length ((WALMAGICDATA @ hton64 osiz) @ ?E))
      = (WALMAGICDATA @ hton64 osiz) @ ?E"
    by simp
  from load_bytes_prefix [OF this]
  have hd12: "load_bytes ?wm 0 12 = WALMAGICDATA @ hton64 osiz"
    and bodyE: "load_bytes ?wm 12 (length ?E) = ?E"
    by simp_all
  have ge: "12 \<le> core_walfsiz core" using fs WALMAPSIZ_ge by simp
  then have mr: "myread core 0 12 = Some (WALMAGICDATA @ hton64 osiz)"
    by (simp add: myread_def hd12)
  have os: "ntoh64 (drop 4 (WALMAGICDATA @ hton64 osiz)) = osiz"
    using o ntoh64_hton64 [of osiz "[]"] by simp
  have b5: "\<forall>m\<in>set ms. msg_off m < 2 ^ 63 \<and> length (msg_body m) < 2 ^ 63"
    using bd o by (fastforce simp: list_all_iff)
  have p2: "\<forall>i\<ge>12 + length ?E. ?wm i = 0" using z ws by simp
  have p3: "12 + length ?E \<le> core_walfsiz core" using fs ws by simp
  from walread_parse [OF bodyE p2 p3 refl b5, of "[]"]
  obtain pos' rem' ms' where
    r: "walread core 12 (core_walfsiz core - 12) [] = (False, pos', rem', ms')"
    and u: "\<forall>c. wal_undo ms' c = wal_undo ms c"
    and e2: "rem' \<noteq> 0 \<longrightarrow> myread core pos' 1 = Some [0]"
    by auto
  have o': "osiz \<le> 9223372036854775807" using o by simp
  show ?thesis
    unfolding walapply_def Let_def
    using ge mr os r u e2 o'
    by (auto simp: WALMAGICDATA_def walreplay_undo)
qed

lemma File_end_transaction_abort:
  assumes inv: "wal_inv core osiz base m0 ms" and o: "osiz < 2 ^ 63"
    and e: "File_end_transaction core False = (ok, core3)"
  shows "ok \<and> core_map core3 = cut_bytes (wal_undo ms (core_map core)) osiz
     \<and> core_lsiz core3 = osiz \<and> core_psiz core3 = osiz \<and> wal_clear core3 \<and> core_walfd core3
     \<and> \<not> core_tran core3"
proof -
  from inv have z: "\<forall>i\<ge>core_walsiz core. core_walmap core i = 0"
    and fs: "core_walfsiz core = max WALMAPSIZ (core_walsiz core)" and fd: "core_walfd core"
    unfolding wal_inv_def wal_image_def by blast+
  let ?n = "if core_walsiz core < WALMAPSIZ then core_walsiz core else WALMAPSIZ"
  let ?wm = "store_bytes (core_walmap core) 0 (replicate ?n 0)"
  have "(if core_walsiz core > WALMAPSIZ then cut_bytes ?wm WALMAPSIZ else ?wm) = (\<lambda>i. 0)"
    using z by (auto simp: fun_eq_iff store_bytes_apply cut_bytes_def)
  moreover have "(if core_walsiz core > WALMAPSIZ then WALMAPSIZ else core_walfsiz core) = WALMAPSIZ"
    using fs by auto
  ultimately show ?thesis
    using e fd unfolding File_end_transaction_def walapply_inv [OF inv o] Let_def
    by (auto simp: wal_clear_def)
qed


lemma example_core_simps:
  "core_lsiz example_core = 8" "\<not> core_walfd example_core"
  "load_bytes (core_map example_core) 2 6 = [3, 4, 5, 6, 7, 8]"
  by (simp_all add: example_core_def File_write_def File_new_def Let_def load_bytes_eq_iff
        store_bytes_apply less_Suc_eq numeral_nat all_conj_distrib)


subsection \<open>Numbers in the file\<close>

lemma readfixnum_writefixnum:
  "readfixnum (writefixnum n w @ rest) w = n mod 256 ^ w"
  by (simp add: readfixnum_def writefixnum_def be_nat_be_bytes)

lemma length_writefixnum [simp]: "length (writefixnum n w) = w"
  by (simp add: writefixnum_def)

lemma push_drop_aligned: "2 ^ a dvd (n::nat) \<Longrightarrow> push_bit a (drop_bit a n) = n"
  by (simp add: push_bit_eq_mult drop_bit_eq_div)

lemma unat_and_7f: "unat ((c :: byte) AND 0x7f) = unat c mod 128"
proof -
  have "(0x7f :: byte) = mask 7" by (simp add: mask_eq_exp_minus_1)
  then have "c AND 0x7f = take_bit 7 c" by (simp only: take_bit_eq_mask)
  moreover have "unat (take_bit 7 c) = take_bit 7 (unat c)" by (rule unsigned_take_bit_eq)
  moreover have "take_bit 7 (unat c) = unat c mod 128" by (simp add: take_bit_eq_mod)
  ultimately show ?thesis by (simp only:)
qed

lemma byte_ge_80: "((c :: byte) \<ge> 0x80) = (unat c \<ge> 128)"
  by (simp add: word_le_nat_alt)

lemma byte_hi:
  assumes "k < 128"
  shows "unat ((of_nat (k + 128) :: byte) AND 0x7f) = k" and "(of_nat (k + 128) :: byte) \<ge> 0x80"
proof -
  have "(k + 128) mod 256 = k + 128" using assms by simp
  then have u: "unat (of_nat (k + 128) :: byte) = k + 128"
    by (simp only: unat_of_nat_byte)
  have "(k + 128) mod 128 = k" using assms by simp
  then show "unat ((of_nat (k + 128) :: byte) AND 0x7f) = k"
    by (simp only: unat_and_7f u)
  show "(of_nat (k + 128) :: byte) \<ge> 0x80"
    unfolding byte_ge_80 u by simp
qed

lemma byte_lo:
  assumes "k < 128"
  shows "unat ((of_nat k :: byte) AND 0x7f) = k" and "\<not> (of_nat k :: byte) \<ge> 0x80"
proof -
  have "k mod 256 = k" using assms by simp
  then have u: "unat (of_nat k :: byte) = k"
    by (simp only: unat_of_nat_byte)
  have "k mod 128 = k" using assms by simp
  then show "unat ((of_nat k :: byte) AND 0x7f) = k"
    by (simp only: unat_and_7f u)
  show "\<not> (of_nat k :: byte) \<ge> 0x80"
    unfolding byte_ge_80 u using assms by simp
qed


text \<open>readvarnum reads back what writevarnum wrote.\<close>

lemma readvarnum_loop_hi:
  "siz \<noteq> 0 \<Longrightarrow> c \<ge> 0x80 \<Longrightarrow> unat (c AND 0x7f) = k \<Longrightarrow> num * 128 + k < 2 ^ 64 \<Longrightarrow>
     readvarnum_loop (c # rp) siz num step = readvarnum_loop rp (siz - 1) (num * 128 + k) (step + 1)"
  by (simp add: Let_def)

lemma readvarnum_loop_lo:
  "siz \<noteq> 0 \<Longrightarrow> \<not> c \<ge> 0x80 \<Longrightarrow> unat (c AND 0x7f) = k \<Longrightarrow> num * 128 + k < 2 ^ 64 \<Longrightarrow>
     readvarnum_loop (c # rp) siz num step = (step + 1, num * 128 + k)"
  by (simp add: Let_def)

lemma readvarnum_loop_head:
  "length (varnum_head n) \<le> siz \<Longrightarrow> (num * 128 ^ length (varnum_head n) + n) * 128 < 2 ^ 64 \<Longrightarrow>
     readvarnum_loop (varnum_head n @ rest) siz num step =
       readvarnum_loop rest (siz - length (varnum_head n))
         (num * 128 ^ length (varnum_head n) + n) (step + length (varnum_head n))"
proof (induction n arbitrary: siz num step rest rule: varnum_head.induct)
  case (1 n)
  show ?case
  proof (cases "n = 0")
    case True
    then show ?thesis by (simp add: varnum_head.simps)
  next
    case False
    let ?h = "varnum_head (n div 128)"
    let ?c = "of_nat (n mod 128 + 128) :: byte"
    have vh: "varnum_head n = ?h @ [?c]"
      using False by (subst varnum_head.simps) simp
    have len: "length (varnum_head n) = Suc (length ?h)" by (simp add: vh)
    have k: "n mod 128 < 128" by simp
    have b1: "length ?h \<le> siz" using "1.prems"(1) len by simp
    have "num * 128 ^ length ?h + n div 128 \<le> num * 128 ^ length (varnum_head n) + n"
      by (simp add: len)
    with "1.prems"(2) have b2: "(num * 128 ^ length ?h + n div 128) * 128 < 2 ^ 64"
      by (smt (verit) le_less_trans mult_le_mono1)
    have eq: "(num * 128 ^ length ?h + n div 128) * 128 + n mod 128
        = num * 128 ^ length (varnum_head n) + n"
      by (simp add: len algebra_simps)
    have lt: "num * 128 ^ length (varnum_head n) + n < 2 ^ 64"
      using "1.prems"(2) by simp
    have s1: "siz - length ?h \<noteq> 0" using "1.prems"(1) len by simp
    have "readvarnum_loop (varnum_head n @ rest) siz num step
        = readvarnum_loop (?h @ (?c # rest)) siz num step"
      by (simp add: vh)
    also have "\<dots> = readvarnum_loop (?c # rest) (siz - length ?h)
          (num * 128 ^ length ?h + n div 128) (step + length ?h)"
      using "1.IH" [OF False b1 b2] .
    also have "\<dots> = readvarnum_loop rest (siz - length ?h - 1)
          ((num * 128 ^ length ?h + n div 128) * 128 + n mod 128) (step + length ?h + 1)"
      by (rule readvarnum_loop_hi [OF s1 byte_hi(2) [OF k] byte_hi(1) [OF k]])
         (simp only: eq lt)
    also have "\<dots> = readvarnum_loop rest (siz - length (varnum_head n))
          (num * 128 ^ length (varnum_head n) + n) (step + length (varnum_head n))"
      by (simp only: eq) (simp add: len)
    finally show ?thesis .
  qed
qed


lemma readvarnum_writevarnum:
  assumes "length (writevarnum n) \<le> siz" and "n < 2 ^ 57"
  shows "readvarnum (writevarnum n @ rest) siz = (length (writevarnum n), n)"
proof -
  let ?h = "varnum_head (n div 128)"
  let ?c = "of_nat (n mod 128) :: byte"
  have k: "n mod 128 < 128" by simp
  have len: "length (writevarnum n) = length ?h + 1" by (simp add: writevarnum_def)
  have b1: "length ?h \<le> siz" using assms(1) len by simp
  have "n div 128 * 128 \<le> n" by simp
  then have b2: "(0 * 128 ^ length ?h + n div 128) * 128 < 2 ^ 64"
    using assms(2) by simp
  have s1: "siz - length ?h \<noteq> 0" using assms(1) len by simp
  have b3: "(0 * 128 ^ length ?h + n div 128) * 128 + n mod 128 < 2 ^ 64"
    using assms(2) by simp
  have "readvarnum (writevarnum n @ rest) siz = readvarnum_loop (?h @ (?c # rest)) siz 0 0"
    by (simp add: readvarnum_def writevarnum_def)
  also have "\<dots> = readvarnum_loop (?c # rest) (siz - length ?h)
        (0 * 128 ^ length ?h + n div 128) (0 + length ?h)"
    by (rule readvarnum_loop_head [OF b1 b2])
  also have "\<dots> = (0 + length ?h + 1, (0 * 128 ^ length ?h + n div 128) * 128 + n mod 128)"
    by (rule readvarnum_loop_lo [OF s1 byte_lo(2) [OF k] byte_lo(1) [OF k] b3])
  finally show ?thesis by (simp add: len)
qed

lemma varnum_head_length:
  "length (varnum_head n) = (if n = 0 then 0 else Suc (length (varnum_head (n div 128))))"
  by (subst varnum_head.simps) simp

lemma length_writevarnum: "n < 2 ^ 35 \<Longrightarrow> length (writevarnum n) = varnum_size n"
proof -
  assume n: "n < 2 ^ 35"
  have a: "length (writevarnum n) = Suc (length (varnum_head (n div 128)))"
    by (simp add: writevarnum_def)
  have d: "\<And>m k. (m::nat) div 128 < k \<longleftrightarrow> m < k * 128"
    by (simp add: div_less_iff_less_mult)
  show ?thesis
    unfolding a varnum_size_def
    apply (subst varnum_head_length)
    apply (subst varnum_head_length)
    apply (subst varnum_head_length)
    apply (subst varnum_head_length)
    apply (subst varnum_head_length)
    using n
    by (auto simp: div_mult2_eq [symmetric] div_eq_0_iff)
qed

subsection \<open>Reading a record\<close>

lemma take_load_bytes: "take n (load_bytes m off (n + k)) = load_bytes m off n"
  by (simp add: load_bytes_add)

lemma hton16_bytes: "hton16 n = [of_nat (n div 256), of_nat n]"
  by (simp add: hton16_def numeral_2_eq_2)

lemma ntoh16_pair: "ntoh16 (a # b # rest) = unat a * 256 + unat b"
  by (simp add: ntoh16_def be_nat_def)

text \<open>The fields read\_record takes from a region that begins with the bytes of a header.\<close>

lemma read_record_fields_parse:
  assumes rb: "rbuf = H2 @ writefixnum (drop_bit (apow db) left) (width db) @ R
                 @ writevarnum ksiz @ writevarnum vsiz @ Rest"
    and h2: "length H2 = 2"
    and r: "R = (if linear db then [] else writefixnum (drop_bit (apow db) right) (width db))"
    and l: "addr_ok db left" and rr: "addr_ok db right" "linear db \<longrightarrow> right = 0"
    and ks: "ksiz < 2 ^ 35" and vs: "vsiz < 2 ^ 35"
    and hs: "hs = 2 + width db + (if linear db then 0 else width db)
                + length (writevarnum ksiz) + length (writevarnum vsiz)"
  shows "read_record_fields db off rbuf psz =
     (let rec = \<lparr>r_off = off, r_rsiz = hs + ksiz + vsiz + psz, r_psiz = psz, r_ksiz = ksiz,
                  r_vsiz = vsiz, r_left = left, r_right = right, r_kbuf = None, r_vbuf = None,
                  r_boff = off + hs, r_bbuf = None\<rparr>
      in if length Rest \<ge> ksiz then
           (if length Rest - ksiz \<ge> vsiz then
              (if psz > 0 \<and> length Rest - ksiz - vsiz > 0 \<and> Rest ! (ksiz + vsiz) \<noteq> HDBPADMAGIC
               then (None, set_error db BROKEN ''invalid magic data of a record'')
               else (Some (rec\<lparr>r_kbuf := Some (take ksiz Rest),
                               r_vbuf := Some (take vsiz (drop ksiz Rest))\<rparr>), db))
            else (Some (rec\<lparr>r_kbuf := Some (take ksiz Rest)\<rparr>), db))
         else read_record_body db rec)"
proof -
  let ?w = "width db"
  let ?L = "writefixnum (drop_bit (apow db) left) ?w"
  let ?VK = "writevarnum ksiz"
  let ?VV = "writevarnum vsiz"
  have lenR: "length R = (if linear db then 0 else ?w)" by (simp add: r)
  have d2: "drop 2 rbuf = ?L @ R @ ?VK @ ?VV @ Rest" by (simp add: rb h2)
  have left1: "push_bit (apow db) (readfixnum (drop 2 rbuf) ?w) = left"
    using l by (simp add: d2 readfixnum_writefixnum addr_ok_def push_drop_aligned)
  have d3: "drop (2 + ?w) rbuf = R @ ?VK @ ?VV @ Rest" by (simp add: rb h2)
  have right1: "(if linear db then 0
                 else push_bit (apow db) (readfixnum (drop (2 + ?w) rbuf) ?w)) = right"
  proof (cases "linear db")
    case True
    with rr show ?thesis by simp
  next
    case False
    with r have "drop (2 + ?w) rbuf = writefixnum (drop_bit (apow db) right) ?w @ (?VK @ ?VV @ Rest)"
      by (simp only: d3) simp
    then have "readfixnum (drop (2 + ?w) rbuf) ?w = drop_bit (apow db) right mod 256 ^ ?w"
      by (simp only: readfixnum_writefixnum)
    with False rr show ?thesis
      by (simp only: addr_ok_def) (simp add: push_drop_aligned)
  qed
  let ?rp3 = "if linear db then 2 + ?w else 2 + ?w + ?w"
  have d4: "drop ?rp3 rbuf = ?VK @ ?VV @ Rest" by (simp add: rb h2 r)
  have len: "length rbuf = ?rp3 + length ?VK + length ?VV + length Rest"
    by (simp add: rb h2 r)
  have rv1: "readvarnum (drop ?rp3 rbuf) (length rbuf - ?rp3) = (length ?VK, ksiz)"
    unfolding d4 using ks by (intro readvarnum_writevarnum) (simp_all add: len)
  have d5: "drop (?rp3 + length ?VK) rbuf = ?VV @ Rest"
    using d4 by (metis append_eq_conv_conj drop_drop add.commute)
  have rv2: "readvarnum (drop (?rp3 + length ?VK) rbuf) (length rbuf - (?rp3 + length ?VK))
      = (length ?VV, vsiz)"
    unfolding d5 using vs by (intro readvarnum_writevarnum) (simp_all add: len)
  have hs': "?rp3 + length ?VK + length ?VV = hs" by (simp add: hs)
  have d6: "drop hs rbuf = Rest"
    using d5 hs' by (metis append_eq_conv_conj drop_drop add.commute)
  have rl: "length rbuf - hs = length Rest" using len hs' by simp
  have vk1: "(length ?VK < 1) = False" "(length ?VV < 1) = False"
    by (simp_all add: writevarnum_def)
  have nth: "0 < length Rest - ksiz - vsiz \<Longrightarrow> rbuf ! (hs + ksiz + vsiz) = Rest ! (ksiz + vsiz)"
  proof -
    assume "0 < length Rest - ksiz - vsiz"
    then have "ksiz + vsiz < length Rest" by simp
    then have "drop hs rbuf ! (ksiz + vsiz) = rbuf ! (hs + (ksiz + vsiz))"
      using rl by (intro nth_drop) simp
    then show ?thesis by (simp add: d6 add.assoc)
  qed
  have dk: "drop (hs + ksiz) rbuf = drop ksiz Rest"
    using d6 by (metis drop_drop add.commute)
  show ?thesis
    unfolding read_record_fields_def Let_def left1 right1 rv1 prod.case vk1 if_False rv2 hs' d6 rl dk
    using nth by (auto simp: Let_def)
qed


lemma take_append_whole: "length xs \<le> n \<Longrightarrow> take n (xs @ ys) = xs @ take (n - length xs) ys"
  by simp

lemma record_bytes_split:
  assumes "rec_ok db rec" and "r_kbuf rec = Some k" and "r_vbuf rec = Some v"
  shows "record_bytes db rec =
     (if r_psiz rec < 0x100 then [HDBRECMAGIC, of_nat (r_psiz rec)]
      else [of_nat (r_psiz rec div 256), of_nat (r_psiz rec)])
     @ writefixnum (drop_bit (apow db) (r_left rec)) (width db)
     @ (if linear db then [] else writefixnum (drop_bit (apow db) (r_right rec)) (width db))
     @ writevarnum (r_ksiz rec) @ writevarnum (r_vsiz rec)
     @ (k @ v @ (if r_psiz rec > 0 then HDBPADMAGIC # replicate (r_psiz rec - 1) 0 else []))"
  using assms by (simp add: record_bytes_def rec_ok_def hton16_bytes Let_def)

lemma length_record_bytes:
  assumes "rec_ok db rec"
  shows "length (record_bytes db rec) = r_rsiz rec"
proof -
  from assms obtain k v where kv: "r_kbuf rec = Some k" "r_vbuf rec = Some v"
    by (auto simp: rec_ok_def split: option.splits)
  from assms kv have l: "length k = r_ksiz rec" "length v = r_vsiz rec"
    by (simp_all add: rec_ok_def)
  from assms have r: "r_rsiz rec = rec_hsiz db rec + r_ksiz rec + r_vsiz rec + r_psiz rec"
    by (simp add: rec_ok_def)
  show ?thesis
    unfolding record_bytes_split [OF assms kv] r rec_hsiz_def using l by auto
qed

lemma rec_hsiz_bounds:
  assumes "meta_ok db" and "r_ksiz rec < 2 ^ 35" and "r_vsiz rec < 2 ^ 35"
  shows "rhsiz db \<le> rec_hsiz db rec" and "rec_hsiz db rec \<le> 24"
    and "r_ksiz rec < 128 \<Longrightarrow> r_vsiz rec < 128 \<Longrightarrow> rec_hsiz db rec = rhsiz db"
  using assms
  by (auto simp: meta_ok_def rec_hsiz_def length_writevarnum varnum_size_def
        HDBWIDTHSMALL_def HDBWIDTHLARGE_def)

lemma read_record_at:
  assumes m: "meta_ok db" and a: "rec_at db rec"
  shows "\<exists>rec'. read_record db (r_off rec) = (Some rec', db) \<and> rec_like rec' rec
           \<and> r_boff rec' = r_off rec + rec_hsiz db rec
           \<and> (r_vbuf rec' = r_vbuf rec \<or> r_vbuf rec' = None)"
proof -
  from a have ok: "rec_ok db rec" and ro: "roff db \<le> r_off rec"
    and ps: "r_off rec + r_rsiz rec \<le> psiz db"
    and lb: "load_bytes (core_map (dbfile db)) (r_off rec) (r_rsiz rec) = record_bytes db rec"
    unfolding rec_at_def by blast+
  from ok obtain k v where kv: "r_kbuf rec = Some k" "r_vbuf rec = Some v"
    by (auto simp: rec_ok_def split: option.splits)
  from ok kv have l: "length k = r_ksiz rec" "length v = r_vsiz rec"
    and pz: "r_psiz rec \<le> INT16_MAX"
    and kb: "r_ksiz rec < 2 ^ 35" "r_vsiz rec < 2 ^ 35"
    and ad: "addr_ok db (r_left rec)" "addr_ok db (r_right rec)" "linear db \<longrightarrow> r_right rec = 0"
    and rs: "r_rsiz rec = rec_hsiz db rec + r_ksiz rec + r_vsiz rec + r_psiz rec"
    by (simp_all add: rec_ok_def)
  let ?off = "r_off rec"
  let ?hs = "rec_hsiz db rec"
  let ?m = "core_map (dbfile db)"
  let ?far = "?off > psiz db \<or> psiz db - ?off > HDBRECBUFSIZ"
  define W where "W = (if ?far then HDBRECBUFSIZ else rhsiz db)"
  define H2 where "H2 = (if r_psiz rec < 0x100 then [HDBRECMAGIC, of_nat (r_psiz rec)]
             else [of_nat (r_psiz rec div 256), of_nat (r_psiz rec) :: byte])"
  define P where "P = (if r_psiz rec > 0 then HDBPADMAGIC # replicate (r_psiz rec - 1) 0 else [])"
  define T where "T = load_bytes ?m (?off + r_rsiz rec) W"
  define Rest where "Rest = take (W - ?hs) (k @ v @ P @ T)"
  define Hdr where "Hdr = H2 @ writefixnum (drop_bit (apow db) (r_left rec)) (width db)
      @ (if linear db then [] else writefixnum (drop_bit (apow db) (r_right rec)) (width db))
      @ writevarnum (r_ksiz rec) @ writevarnum (r_vsiz rec)"
  have lenT: "length T = W" by (simp add: T_def)
  have lenP: "length P = r_psiz rec" by (simp add: P_def)
  have lenH2: "length H2 = 2" by (simp add: H2_def)
  have lenH: "length Hdr = ?hs" by (simp add: Hdr_def rec_hsiz_def lenH2)
  have rb: "record_bytes db rec = Hdr @ (k @ v @ P)"
    by (simp add: record_bytes_split [OF ok kv] Hdr_def H2_def P_def)
  note hb = rec_hsiz_bounds [OF m kb]
  have W: "?hs \<le> W"
  proof (cases ?far)
    case True
    with hb(2) show ?thesis by (simp add: W_def HDBRECBUFSIZ_def)
  next
    case False
    with ps rs have "r_ksiz rec < 128" "r_vsiz rec < 128"
      by (simp_all add: HDBRECBUFSIZ_def)
    with hb(3) False show ?thesis by (simp add: W_def)
  qed
  have notshort: "\<not> (\<not> ?far \<and> psiz db - ?off < rhsiz db)"
    using ps rs hb(1) by auto
  have "load_bytes ?m ?off (r_rsiz rec + W) = record_bytes db rec @ T"
    by (simp only: load_bytes_add lb T_def)
  moreover have "load_bytes ?m ?off W = take W (load_bytes ?m ?off (W + r_rsiz rec))"
    by (simp only: take_load_bytes)
  ultimately have "load_bytes ?m ?off W = take W (Hdr @ ((k @ v @ P) @ T))"
    by (simp add: rb add.commute)
  also have "\<dots> = Hdr @ take (W - length Hdr) ((k @ v @ P) @ T)"
    using W lenH by (intro take_append_whole) simp
  finally have win0: "load_bytes ?m ?off W = Hdr @ Rest"
    by (simp add: Rest_def lenH)
  then have win: "load_bytes ?m ?off W
      = H2 @ writefixnum (drop_bit (apow db) (r_left rec)) (width db)
        @ (if linear db then [] else writefixnum (drop_bit (apow db) (r_right rec)) (width db))
        @ writevarnum (r_ksiz rec) @ writevarnum (r_vsiz rec) @ Rest"
    by (simp add: Hdr_def)
  have lenRest: "length Rest = W - ?hs"
    unfolding Rest_def using lenT by simp
  have hs: "?hs = 2 + width db + (if linear db then 0 else width db)
                + length (writevarnum (r_ksiz rec)) + length (writevarnum (r_vsiz rec))"
    by (simp add: rec_hsiz_def)
  note parse = read_record_fields_parse [OF win lenH2 refl ad kb hs, of ?off]
  have kRest: "r_ksiz rec \<le> length Rest \<Longrightarrow> take (r_ksiz rec) Rest = k"
    unfolding Rest_def using l by simp
  have vRest: "r_ksiz rec \<le> length Rest \<Longrightarrow> r_vsiz rec \<le> length Rest - r_ksiz rec
      \<Longrightarrow> take (r_vsiz rec) (drop (r_ksiz rec) Rest) = v"
    unfolding lenRest unfolding Rest_def using l by (simp add: drop_take)
  have pad: "0 < r_psiz rec \<Longrightarrow> 0 < length Rest - r_ksiz rec - r_vsiz rec
      \<Longrightarrow> Rest ! (r_ksiz rec + r_vsiz rec) = HDBPADMAGIC"
    unfolding lenRest unfolding Rest_def using l by (simp add: nth_append P_def)
  have body: "read_record_body db
      \<lparr>r_off = ?off, r_rsiz = ?hs + r_ksiz rec + r_vsiz rec + r_psiz rec, r_psiz = r_psiz rec,
        r_ksiz = r_ksiz rec, r_vsiz = r_vsiz rec, r_left = r_left rec, r_right = r_right rec,
        r_kbuf = None, r_vbuf = None, r_boff = ?off + ?hs, r_bbuf = None\<rparr>
      = (Some \<lparr>r_off = ?off, r_rsiz = ?hs + r_ksiz rec + r_vsiz rec + r_psiz rec,
                r_psiz = r_psiz rec, r_ksiz = r_ksiz rec, r_vsiz = r_vsiz rec,
                r_left = r_left rec, r_right = r_right rec,
                r_kbuf = Some k, r_vbuf = Some v, r_boff = ?off + ?hs,
                r_bbuf = Some (k @ v)\<rparr>, db)"
  proof -
    have "load_bytes ?m ?off (length (Hdr @ ((k @ v) @ P))) = Hdr @ ((k @ v) @ P)"
      using lb rb length_record_bytes [OF ok] by simp
    from load_bytes_prefix(2) [OF this]
    have "load_bytes ?m (?off + ?hs) (length ((k @ v) @ P)) = (k @ v) @ P"
      by (simp only: lenH)
    from load_bytes_prefix(1) [OF this]
    have "load_bytes ?m (?off + ?hs) (r_ksiz rec + r_vsiz rec) = k @ v"
      using l by simp
    then show ?thesis
      using l by (simp add: read_record_body_def File_read_fast_def Let_def)
  qed
  have fields: "\<exists>rec'. read_record_fields db ?off (load_bytes ?m ?off W) (r_psiz rec)
        = (Some rec', db) \<and> rec_like rec' rec \<and> r_boff rec' = ?off + ?hs
        \<and> (r_vbuf rec' = r_vbuf rec \<or> r_vbuf rec' = None)"
    unfolding parse Let_def
    using kRest vRest pad body kv rs
    by (auto simp: rec_like_def)
  have first: "load_bytes ?m ?off W ! 0 = hd H2" "load_bytes ?m ?off W ! 1 = of_nat (r_psiz rec)"
    unfolding win by (simp_all add: H2_def)
  have rr: "read_record db ?off =
      (case Some (load_bytes ?m ?off W) of
         None \<Rightarrow> (None, set_error db SYSTEM ''read failed'')
       | Some rbuf \<Rightarrow>
           if rbuf ! 0 = HDBRECMAGIC
           then read_record_fields db ?off rbuf (ntoh16 [0, rbuf ! 1])
           else if rbuf ! 0 \<ge> 0x80 then read_free_block db ?off rbuf
           else if rbuf ! 0 = 0 then (None, set_error db BROKEN ''nullified region'')
           else read_record_fields db ?off rbuf (ntoh16 rbuf))"
  proof (cases ?far)
    case True
    with ro show ?thesis
      unfolding read_record_def Let_def File_read_fast_def W_def
      by (simp add: not_less)
  next
    case False
    with notshort have "\<not> psiz db - ?off < rhsiz db" by blast
    with False ro show ?thesis
      unfolding read_record_def Let_def File_read_fast_def W_def
      by (simp add: not_less)
  qed
  show ?thesis
  proof (cases "r_psiz rec < 0x100")
    case True
    then have "ntoh16 [0, of_nat (r_psiz rec)] = r_psiz rec"
      by (simp add: ntoh16_pair unat_of_nat_byte)
    with True fields first show ?thesis
      unfolding rr by (simp add: H2_def)
  next
    case False
    let ?b = "of_nat (r_psiz rec div 256) :: byte"
    from False pz have d: "1 \<le> r_psiz rec div 256" "r_psiz rec div 256 < 128"
      by (simp_all add: INT16_MAX_def)
    then have u: "unat ?b = r_psiz rec div 256"
      by (simp add: unat_of_nat_byte)
    have b1: "?b \<noteq> HDBRECMAGIC" using u d by (auto simp: HDBRECMAGIC_def)
    have b2: "\<not> ?b \<ge> 0x80" using u d by (simp add: byte_ge_80)
    have b3: "?b \<noteq> 0" using u d by auto
    have "ntoh16 (load_bytes ?m ?off W) = unat ?b * 256 + r_psiz rec mod 256"
      using False by (simp add: win H2_def ntoh16_pair unat_of_nat_byte)
    then have n: "ntoh16 (load_bytes ?m ?off W) = r_psiz rec" by (simp add: u)
    from False fields first b1 b2 b3 n show ?thesis
      unfolding rr by (simp add: H2_def)
  qed
qed

subsection \<open>Writing to the file\<close>

lemma load_store_disjoint:
  "off' + n \<le> off \<or> off + length buf \<le> off' \<Longrightarrow>
     load_bytes (store_bytes m off buf) off' n = load_bytes m off' n"
  by (auto simp: load_bytes_eq_iff store_bytes_apply)

lemma load_store_same: "load_bytes (store_bytes m off buf) off (length buf) = buf"
  by (simp add: load_bytes_eq_iff store_bytes_apply)

lemma File_write_fast_ok: "File_write_fast core off buf = (ok, c) \<Longrightarrow> ok"
  by (auto simp: File_write_fast_def Let_def split: if_splits prod.splits dest: walwrite_ok)

lemma File_write_fast_eq:
  "File_write_fast core off buf = (True, snd (File_write_fast core off buf))"
  using walwrite_fields(10) [of core off "length buf" "core_trbase core"]
  by (cases "walwrite core off (length buf) (core_trbase core)")
     (auto simp: File_write_fast_def Let_def)

lemma File_write_eq:
  "File_write core off buf = (True, snd (File_write core off buf))"
  using walwrite_fields(10) [of core off "length buf" "core_trbase core"]
  by (cases "walwrite core off (length buf) (core_trbase core)")
     (auto simp: File_write_def Let_def)

lemma core_map_File_write_fast [simp]:
  "core_map (snd (File_write_fast core off buf)) = store_bytes (core_map core) off buf"
  using walwrite_fields(1,10) [of core off "length buf" "core_trbase core"]
  by (cases "walwrite core off (length buf) (core_trbase core)")
     (auto simp: File_write_fast_def Let_def)

lemma core_map_File_write [simp]:
  "core_map (snd (File_write core off buf)) = store_bytes (core_map core) off buf"
  using walwrite_fields(1,10) [of core off "length buf" "core_trbase core"]
  by (cases "walwrite core off (length buf) (core_trbase core)")
     (auto simp: File_write_def Let_def)

lemma set_chain_eq:
  "set_chain db entoff off =
     (True, db\<lparr>dbfile := snd (File_write_fast (dbfile db) entoff
                               (writefixnum (drop_bit (apow db) off) (width db)))\<rparr>)"
  unfolding set_chain_def Let_def
  by (subst File_write_fast_eq) simp

lemma set_bucket_eq:
  "set_bucket db bidx off =
     (True, db\<lparr>dbfile := snd (File_write_fast (dbfile db) (boff db + bidx * width db)
                               (writefixnum (drop_bit (apow db) off) (width db)))\<rparr>)"
  unfolding set_bucket_def Let_def
  by (subst File_write_fast_eq) simp

lemma write_free_block_eq:
  "write_free_block db off rsiz =
     (True, db\<lparr>dbfile := snd (File_write_fast (dbfile db) off
                  ([HDBFBMAGIC, HDBFBMAGIC] @ writefixnum (drop_bit (apow db) rsiz) (width db)
                   @ [HDBPADMAGIC, HDBPADMAGIC]))\<rparr>)"
  unfolding write_free_block_def Let_def
  by (subst File_write_fast_eq) simp

lemma write_record_eq:
  "write_record db rec over =
     (True, db\<lparr>dbfile :=
        (if over then snd (File_write_fast (dbfile db) (r_off rec)
                            (take (r_rsiz rec) (record_bytes db rec @ replicate (r_rsiz rec) 0)))
         else snd (File_write (dbfile db) (r_off rec)
                            (take (r_rsiz rec) (record_bytes db rec @ replicate (r_rsiz rec) 0))))\<rparr>)"
  unfolding write_record_def Let_def
  by (cases over) (auto split: prod.splits dest: File_write_ok File_write_fast_ok)

lemma get_bucket_eq:
  "get_bucket db bidx =
     (Some (push_bit (apow db)
        (readfixnum (load_bytes (core_map (dbfile db)) (boff db + bidx * width db) (width db))
           (width db))), db)"
  by (simp add: get_bucket_def File_read_fast_def)

lemma record_bytes_cong:
  "apow db' = apow db \<Longrightarrow> width db' = width db \<Longrightarrow> linear db' = linear db \<Longrightarrow>
     record_bytes db' rec = record_bytes db rec"
  by (simp add: record_bytes_def)

lemma rec_ok_cong:
  "apow db' = apow db \<Longrightarrow> width db' = width db \<Longrightarrow> linear db' = linear db \<Longrightarrow>
     rec_ok db' rec = rec_ok db rec"
  by (simp add: rec_ok_def addr_ok_def rec_hsiz_def)

lemma rec_at_cong:
  assumes "rec_at db rec"
    and "apow db' = apow db" "width db' = width db" "linear db' = linear db"
    and "roff db' = roff db" "psiz db \<le> psiz db'"
    and "load_bytes (core_map (dbfile db')) (r_off rec) (r_rsiz rec)
           = load_bytes (core_map (dbfile db)) (r_off rec) (r_rsiz rec)"
  shows "rec_at db' rec"
  using assms record_bytes_cong [OF assms(2-4), of rec] rec_ok_cong [OF assms(2-4), of rec]
  by (simp add: rec_at_def)

subsection \<open>Walking down a chain\<close>

lemma memcmp_eq_0: "length a = length b \<Longrightarrow> memcmp a b = 0 \<longleftrightarrow> a = b"
proof (induction a b rule: memcmp.induct)
  case (3 a as b bs)
  have "a \<noteq> b \<Longrightarrow> int (unat a) \<noteq> int (unat b)"
    by (simp add: word_uint_eq_iff)
  with 3 show ?case by auto
qed auto

lemma compare_keys_eq_0: "compare_keys a b = 0 \<longleftrightarrow> a = b"
  by (auto simp: compare_keys_def memcmp_eq_0)

lemma rec_at_psiz: "rec_at db r \<Longrightarrow> r_psiz r \<noteq> UINT16_MAX"
  by (simp add: rec_at_def rec_ok_def INT16_MAX_def UINT16_MAX_def)

lemma accept_loop_step:
  assumes m: "meta_ok db" and a: "rec_at db r" and p: "r_off r > 0"
    and s: "step_dir db kbuf pivot r = Some (off1, entoff1)"
  shows "accept_loop (Suc fuel) db kbuf visitor vst bidx pivot isiter (r_off r) entoff
           = accept_loop fuel db kbuf visitor vst bidx pivot isiter off1 entoff1"
proof -
  from read_record_at [OF m a] obtain rec' where
    rr: "read_record db (r_off r) = (Some rec', db)" and rl: "rec_like rec' r"
    by blast
  from rl have f: "r_off rec' = r_off r" "r_psiz rec' = r_psiz r" "r_left rec' = r_left r"
    "r_right rec' = r_right r" "r_kbuf rec' = r_kbuf r"
    by (simp_all add: rec_like_def)
  from rec_at_psiz [OF a] have ps: "r_psiz rec' \<noteq> UINT16_MAX" by (simp add: f)
  show ?thesis
    using s p ps
    by (auto simp: rr f step_dir_def Let_def split: if_splits)
qed

lemma accept_loop_chain:
  assumes m: "meta_ok db"
  shows "chain db kbuf pivot rs off entoff off' entoff' \<Longrightarrow>
     accept_loop (length rs + fuel) db kbuf visitor vst bidx pivot isiter off entoff
       = accept_loop fuel db kbuf visitor vst bidx pivot isiter off' entoff'"
proof (induction rs arbitrary: off entoff)
  case Nil
  then show ?case by simp
next
  case (Cons r rs)
  from Cons.prems obtain off1 entoff1 where
    o: "off > 0" "r_off r = off" and a: "rec_at db r"
    and s: "step_dir db kbuf pivot r = Some (off1, entoff1)"
    and c: "chain db kbuf pivot rs off1 entoff1 off' entoff'"
    by (auto split: option.splits)
  have "accept_loop (Suc (length rs + fuel)) db kbuf visitor vst bidx pivot isiter (r_off r) entoff
          = accept_loop (length rs + fuel) db kbuf visitor vst bidx pivot isiter off1 entoff1"
    using o by (intro accept_loop_step [OF m a _ s]) simp
  with Cons.IH [OF c] o show ?case by simp
qed

lemma accept_loop_empty:
  "accept_loop (Suc fuel) db kbuf visitor vst bidx pivot isiter 0 entoff
     = Some (accept_empty db kbuf visitor vst bidx entoff)"
  by simp

lemma compare_keys_same [simp]: "compare_keys k k = 0"
  by (simp add: compare_keys_eq_0)

lemma step_dir_found:
  "r_kbuf r = Some kbuf \<Longrightarrow> pivot = fold_hash (hash_record db kbuf) \<Longrightarrow>
     step_dir db kbuf pivot r = None"
  by (simp add: step_dir_def Let_def)

lemma accept_loop_found:
  assumes m: "meta_ok db" and a: "rec_at db r" and p: "r_off r > 0"
    and k: "r_kbuf r = Some kbuf" and pv: "pivot = fold_hash (hash_record db kbuf)"
  shows "\<exists>rec'. rec_like rec' r \<and> r_boff rec' = r_off r + rec_hsiz db r
            \<and> (r_vbuf rec' = r_vbuf r \<or> r_vbuf rec' = None)
            \<and> accept_loop (Suc fuel) db kbuf visitor vst bidx pivot isiter (r_off r) entoff
                 = accept_full fuel db kbuf visitor vst bidx isiter rec' entoff"
proof -
  from read_record_at [OF m a] obtain rec' where
    rr: "read_record db (r_off r) = (Some rec', db)" and rl: "rec_like rec' r"
    and b: "r_boff rec' = r_off r + rec_hsiz db r"
    and v: "r_vbuf rec' = r_vbuf r \<or> r_vbuf rec' = None"
    by blast
  from rl have f: "r_off rec' = r_off r" "r_psiz rec' = r_psiz r" "r_kbuf rec' = r_kbuf r"
    by (simp_all add: rec_like_def)
  from rec_at_psiz [OF a] have ps: "r_psiz rec' \<noteq> UINT16_MAX" by (simp add: f)
  have "accept_loop (Suc fuel) db kbuf visitor vst bidx pivot isiter (r_off r) entoff
          = accept_full fuel db kbuf visitor vst bidx isiter rec' entoff"
  proof -
    have c: "compare_keys kbuf kbuf = 0" by (simp add: compare_keys_eq_0)
    show ?thesis using p ps by (simp add: rr f k pv Let_def c)
  qed
  with rl b v show ?thesis by blast
qed

text \<open>the body of a record that lies in the file\<close>

lemma read_record_body_at:
  assumes a: "rec_at db r" and rl: "rec_like rec' r"
    and b: "r_boff rec' = r_off r + rec_hsiz db r"
  shows "\<exists>rec2. read_record_body db rec' = (Some rec2, db) \<and> rec_like rec2 r
           \<and> r_vbuf rec2 = r_vbuf r"
proof -
  from a have ok: "rec_ok db r"
    and L: "load_bytes (core_map (dbfile db)) (r_off r) (r_rsiz r) = record_bytes db r"
    by (simp_all add: rec_at_def)
  from ok obtain k v where kv: "r_kbuf r = Some k" "r_vbuf r = Some v"
    "length k = r_ksiz r" "length v = r_vsiz r"
    and rs: "r_rsiz r = rec_hsiz db r + r_ksiz r + r_vsiz r + r_psiz r"
    by (auto simp: rec_ok_def split: option.splits)
  define Hd where "Hd = (if r_psiz r < 0x100 then [HDBRECMAGIC, of_nat (r_psiz r)]
      else [of_nat (r_psiz r div 256), of_nat (r_psiz r)])
     @ writefixnum (drop_bit (apow db) (r_left r)) (width db)
     @ (if linear db then [] else writefixnum (drop_bit (apow db) (r_right r)) (width db))
     @ writevarnum (r_ksiz r) @ writevarnum (r_vsiz r)"
  define Pad where "Pad = (if r_psiz r > 0 then HDBPADMAGIC # replicate (r_psiz r - 1) 0 else [])"
  have sp: "record_bytes db r = Hd @ ((k @ v) @ Pad)"
    unfolding Hd_def Pad_def record_bytes_split [OF ok kv(1,2)] by simp
  have lh: "length Hd = rec_hsiz db r"
    by (simp add: Hd_def rec_hsiz_def)
  have "length (Hd @ ((k @ v) @ Pad)) = r_rsiz r"
    using length_record_bytes [OF ok] sp by simp
  with L sp have "load_bytes (core_map (dbfile db)) (r_off r) (length (Hd @ ((k @ v) @ Pad)))
                    = Hd @ ((k @ v) @ Pad)"
    by simp
  from load_bytes_prefix(2) [OF this]
  have "load_bytes (core_map (dbfile db)) (r_off r + length Hd) (length ((k @ v) @ Pad))
          = (k @ v) @ Pad" .
  from load_bytes_prefix(1) [OF this]
  have kvb: "load_bytes (core_map (dbfile db)) (r_off r + rec_hsiz db r) (r_ksiz r + r_vsiz r)
          = k @ v"
    using kv lh by simp
  from rl have f: "r_ksiz rec' = r_ksiz r" "r_vsiz rec' = r_vsiz r"
    by (simp_all add: rec_like_def)
  show ?thesis
    using rl kv
    by (simp add: read_record_body_def File_read_fast_def Let_def f b kvb rec_like_def)
qed

subsection \<open>A visitor that changes nothing\<close>

lemma accept_full_nop:
  assumes a: "rec_at db r" and rl: "rec_like rec' r"
    and b: "r_boff rec' = r_off r + rec_hsiz db r"
    and vb: "r_vbuf rec' = r_vbuf r \<or> r_vbuf rec' = None"
    and sv: "shown_value db r = Some v"
    and vis: "visit_full visitor vst kbuf v = (NOP, vst1)"
  shows "accept_full fuel db kbuf visitor vst bidx isiter rec' entoff = Some (True, vst1, db)"
proof -
  from a obtain z where z: "r_vbuf r = Some z"
    by (auto simp: rec_at_def rec_ok_def split: option.splits)
  have "\<exists>rec2. (if r_vbuf rec' = None then read_record_body db rec' else (Some rec', db))
                  = (Some rec2, db) \<and> r_vbuf rec2 = r_vbuf r"
  proof (cases "r_vbuf rec' = None")
    case True
    with read_record_body_at [OF a rl b] show ?thesis by auto
  next
    case False
    with vb show ?thesis by auto
  qed
  then obtain rec2 where
    r2: "(if r_vbuf rec' = None then read_record_body db rec' else (Some rec', db))
           = (Some rec2, db)" and v2: "r_vbuf rec2 = r_vbuf r"
    by blast
  from sv have d: "(case compr db of None \<Rightarrow> r_vbuf rec2
                    | Some c \<Rightarrow> decompress c (case r_vbuf rec2 of None \<Rightarrow> [] | Some v \<Rightarrow> v))
                     = Some v"
    unfolding shown_value_def v2 .
  show ?thesis
    unfolding accept_full_def r2 prod.case option.case d vis VisitResult.case ..
qed

lemma get_bucket_off: "get_bucket db bidx = (Some (bucket_off db bidx), db)"
  by (simp add: get_bucket_eq bucket_off_def)

lemma accept_impl_found_nop:
  assumes m: "meta_ok db"
    and l: "lookup db kbuf rs (r_off r) entoff"
    and a: "rec_at db r" and p: "r_off r > 0" and k: "r_kbuf r = Some kbuf"
    and sv: "shown_value db r = Some v"
    and vis: "visit_full visitor vst kbuf v = (NOP, vst1)"
    and f: "length rs < fuel"
  shows "accept_impl fuel db kbuf visitor vst (key_bidx db kbuf) (key_pivot db kbuf) isiter
           = Some (True, vst1, db)"
proof -
  from f obtain fuel' where fu: "fuel = length rs + Suc fuel'"
    by (metis less_iff_Suc_add add_Suc_right)
  from accept_loop_found [OF m a p k, of "key_pivot db kbuf" fuel' visitor vst
         "key_bidx db kbuf" isiter entoff]
  obtain rec' where
    rl: "rec_like rec' r" and b: "r_boff rec' = r_off r + rec_hsiz db r"
    and vb: "r_vbuf rec' = r_vbuf r \<or> r_vbuf rec' = None"
    and al: "accept_loop (Suc fuel') db kbuf visitor vst (key_bidx db kbuf) (key_pivot db kbuf)
               isiter (r_off r) entoff
             = accept_full fuel' db kbuf visitor vst (key_bidx db kbuf) isiter rec' entoff"
    by (auto simp: key_pivot_def)
  have "accept_loop (length rs + Suc fuel') db kbuf visitor vst (key_bidx db kbuf)
          (key_pivot db kbuf) isiter (bucket_off db (key_bidx db kbuf)) 0
        = Some (True, vst1, db)"
    unfolding accept_loop_chain [OF m l [unfolded lookup_def]] al
    by (rule accept_full_nop [OF a rl b vb sv vis])
  then show ?thesis
    unfolding accept_impl_def get_bucket_off prod.case option.case fu .
qed

subsection \<open>The pool and the padding of a record\<close>

lemma upper_bound_mem: "upper_bound x xs = Some y \<Longrightarrow> y \<in> set xs \<and> fb_less x y"
  by (induction xs) (auto split: if_splits)

lemma fetch_free_block_cases:
  "fetch_free_block db n = (fbo, db1) \<Longrightarrow>
     db1 = db\<lparr>fbp := fbp db1, curs := curs db1\<rparr> \<and> set (fbp db1) \<subseteq> set (fbp db)
     \<and> (case fbo of None \<Rightarrow> True | Some fb \<Rightarrow> fb \<in> set (fbp db) \<and> n \<le> fb_rsiz fb)"
proof -
  assume f: "fetch_free_block db n = (fbo, db1)"
  show ?thesis
  proof (cases "fbpnum db < 1 \<or> upper_bound \<lparr>fb_off = INT64_MAX, fb_rsiz = n\<rparr> (fbp db) = None")
    case True
    with f show ?thesis by (auto simp: fetch_free_block_def split: if_splits)
  next
    case False
    then obtain y where y: "upper_bound \<lparr>fb_off = INT64_MAX, fb_rsiz = n\<rparr> (fbp db) = Some y"
      by auto
    from upper_bound_mem [OF y] have my: "y \<in> set (fbp db)" "n \<le> fb_rsiz y"
      by (auto simp: fb_less_def)
    from f False y have e: "fbo = Some y"
      "db1 = escape_cursors (db\<lparr>fbp := set_erase y (fbp db)\<rparr>) (fb_off y) (fb_off y + fb_rsiz y)"
      by (auto simp: fetch_free_block_def)
    have "set (remove1 y (fbp db)) \<subseteq> set (fbp db)" by (rule set_remove1_subset)
    with e my show ?thesis
      by (simp add: escape_cursors_def set_erase_remove1)
  qed
qed

lemma insert_free_block_conf:
  "insert_free_block db off rsiz
     = db\<lparr>fbp := fbp (insert_free_block db off rsiz), curs := curs (insert_free_block db off rsiz)\<rparr>"
  by (auto simp: insert_free_block_def escape_cursors_def Let_def split: list.splits)

lemma insert_free_block_set:
  "set (fbp (insert_free_block db off rsiz))
     \<subseteq> insert \<lparr>fb_off = off, fb_rsiz = rsiz\<rparr> (set (fbp db))"
  by (auto simp: insert_free_block_def escape_cursors_def Let_def set_set_insert split: list.splits)

lemma meta_ok_rhsiz: "meta_ok db \<Longrightarrow> rhsiz db \<le> 16"
  by (auto simp: meta_ok_def HDBWIDTHSMALL_def HDBWIDTHLARGE_def)

lemma push_drop_le: "push_bit a (drop_bit a (n::nat)) \<le> n"
  by (simp add: push_bit_eq_mult drop_bit_eq_div)

lemma push_drop_mod: "n - push_bit a (drop_bit a (n::nat)) = n mod 2 ^ a"
  by (simp add: push_bit_eq_mult drop_bit_eq_div minus_div_mult_eq_mod)

lemma adjust_record_cases:
  assumes m: "meta_ok db" and ps: "r_psiz rec \<le> r_rsiz rec"
  shows "\<exists>nsiz db1. adjust_record db rec
            = (True, rec\<lparr>r_rsiz := r_rsiz rec - nsiz, r_psiz := r_psiz rec - nsiz\<rparr>, db1)
          \<and> nsiz \<le> r_psiz rec \<and> r_psiz rec - nsiz \<le> INT16_MAX
          \<and> db1 = db\<lparr>dbfile := dbfile db1, fbp := fbp db1, curs := curs db1\<rparr>
          \<and> set (fbp db1) \<subseteq> insert \<lparr>fb_off = r_off rec + (r_rsiz rec - nsiz), fb_rsiz = nsiz\<rparr>
                                  (set (fbp db))
          \<and> (\<forall>i. i < r_off rec + (r_rsiz rec - nsiz) \<or> r_off rec + r_rsiz rec \<le> i
                 \<longrightarrow> core_map (dbfile db1) i = core_map (dbfile db) i)"
proof -
  define nsiz where "nsiz = push_bit (apow db) (drop_bit (apow db) (r_psiz rec))"
  have le: "nsiz \<le> r_psiz rec" unfolding nsiz_def by (rule push_drop_le)
  have md: "r_psiz rec - nsiz = r_psiz rec mod 2 ^ apow db"
    unfolding nsiz_def by (rule push_drop_mod)
  from m have ap: "apow db \<le> 15" by (simp add: meta_ok_def HDBMAXAPOW_def)
  have "(2::nat) ^ apow db \<le> 2 ^ 15" using ap by (intro power_increasing) simp_all
  then have a15: "(2::nat) ^ apow db \<le> 32768" by simp
  have small: "r_psiz rec - nsiz \<le> INT16_MAX"
  proof -
    have "r_psiz rec mod 2 ^ apow db < 2 ^ apow db" by simp
    then have "r_psiz rec mod 2 ^ apow db < 32768" using a15 by (rule less_le_trans)
    with md show ?thesis by (simp add: INT16_MAX_def)
  qed
  show ?thesis
  proof (cases "(r_psiz rec > INT16_MAX \<or> r_psiz rec > r_rsiz rec div 2) \<and> \<not> nsiz < rhsiz db")
    case True
    define rec1 where "rec1 = rec\<lparr>r_rsiz := r_rsiz rec - nsiz, r_psiz := r_psiz rec - nsiz\<rparr>"
    define noff where "noff = r_off rec + (r_rsiz rec - nsiz)"
    define db1 where "db1 = insert_free_block (snd (write_free_block db noff nsiz)) noff nsiz"
    have ad: "adjust_record db rec = (True, rec1, db1)"
      using True
      by (auto simp: adjust_record_def Let_def nsiz_def [symmetric] rec1_def db1_def noff_def
            write_free_block_eq)
    have c1: "db1 = db\<lparr>dbfile := dbfile db1, fbp := fbp db1, curs := curs db1\<rparr>"
      unfolding db1_def
      by (subst insert_free_block_conf) (simp add: write_free_block_eq insert_free_block_def
            escape_cursors_def Let_def split: list.splits)
    have s1: "set (fbp db1) \<subseteq> insert \<lparr>fb_off = noff, fb_rsiz = nsiz\<rparr> (set (fbp db))"
      unfolding db1_def using insert_free_block_set [of "snd (write_free_block db noff nsiz)" noff nsiz]
      by (simp add: write_free_block_eq)
    have w: "width db + 4 \<le> rhsiz db" using m by (auto simp: meta_ok_def)
    have mp: "core_map (dbfile db1) = store_bytes (core_map (dbfile db)) noff
                  ([HDBFBMAGIC, HDBFBMAGIC] @ writefixnum (drop_bit (apow db) nsiz) (width db)
                   @ [HDBPADMAGIC, HDBPADMAGIC])"
      unfolding db1_def
      by (simp add: insert_free_block_def escape_cursors_def Let_def write_free_block_eq
            split: list.splits)
    have fr: "\<forall>i. i < noff \<or> r_off rec + r_rsiz rec \<le> i
                 \<longrightarrow> core_map (dbfile db1) i = core_map (dbfile db) i"
      using True w le ps unfolding mp noff_def
      by (auto simp: store_bytes_apply)
    show ?thesis
      using ad le small c1 s1 fr unfolding rec1_def noff_def by blast
  next
    case False
    have ad: "adjust_record db rec = (True, rec, db)"
      using False by (auto simp: adjust_record_def Let_def nsiz_def [symmetric])
    have p16: "r_psiz rec \<le> INT16_MAX"
    proof (rule ccontr)
      assume "\<not> r_psiz rec \<le> INT16_MAX"
      then have big: "r_psiz rec \<ge> 32768" by (simp add: INT16_MAX_def)
      with False have "nsiz < rhsiz db" by (auto simp: INT16_MAX_def)
      with meta_ok_rhsiz [OF m] have n16: "nsiz < 16" by simp
      have lt: "r_psiz rec mod 2 ^ apow db < 2 ^ apow db" by simp
      then have "r_psiz rec mod 2 ^ apow db < 32768" using a15 by (rule less_le_trans)
      with md have l2: "r_psiz rec - nsiz < 32768" by simp
      from lt md have "r_psiz rec - nsiz < 2 ^ apow db" by simp
      with big n16 le have g16: "2 ^ apow db > (16::nat)" by linarith
      have dv: "2 ^ apow db dvd nsiz"
        unfolding nsiz_def by (simp add: push_bit_eq_mult)
      have "nsiz > 0" using big l2 by simp
      with dv have "2 ^ apow db \<le> nsiz" by (rule_tac dvd_imp_le)
      with g16 n16 show False by simp
    qed
    have "adjust_record db rec
            = (True, rec\<lparr>r_rsiz := r_rsiz rec - 0, r_psiz := r_psiz rec - 0\<rparr>, db)"
      using ad by simp
    moreover have "db = db\<lparr>dbfile := dbfile db, fbp := fbp db, curs := curs db\<rparr>" by simp
    ultimately show ?thesis using p16
      by (intro exI [of _ 0] exI [of _ db]) auto
  qed
qed

subsection \<open>Writing a record to a new place\<close>

lemma same_conf_upd:
  "db' = db\<lparr>dbfile := a, fbp := b, curs := c, lsiz := d, psiz := e, count := f, frgcnt := g\<rparr>
     \<Longrightarrow> same_conf db' db"
  by (simp add: same_conf_def)

lemma same_conf_refl [simp]: "same_conf db db"
  by (simp add: same_conf_def)

lemma same_conf_trans: "same_conf db2 db1 \<Longrightarrow> same_conf db1 db \<Longrightarrow> same_conf db2 db"
proof -
  assume a: "same_conf db2 db1" and b: "same_conf db1 db"
  from b obtain a1 b1 c1 d1 e1 f1 g1 h1 i1 where
    b': "db1 = db\<lparr>dbfile := a1, fbp := b1, curs := c1, lsiz := d1, psiz := e1, count := f1,
                    frgcnt := g1, error := h1, flags := i1\<rparr>"
    unfolding same_conf_def by blast
  from a obtain a2 b2 c2 d2 e2 f2 g2 h2 i2 where
    a': "db2 = db1\<lparr>dbfile := a2, fbp := b2, curs := c2, lsiz := d2, psiz := e2, count := f2,
                    frgcnt := g2, error := h2, flags := i2\<rparr>"
    unfolding same_conf_def by blast
  show ?thesis unfolding a' b' same_conf_def by simp
qed

lemma same_conf_fields:
  assumes "same_conf db' db"
  shows "apow db' = apow db" "width db' = width db" "linear db' = linear db"
    "roff db' = roff db" "boff db' = boff db" "rhsiz db' = rhsiz db" "align db' = align db"
    "bnum db' = bnum db" "hashmurmur db' = hashmurmur db" "compr db' = compr db"
    "omode db' = omode db" "writer db' = writer db" "dfunit db' = dfunit db"
    "fbpnum db' = fbpnum db" "autotran db' = autotran db" "autosync db' = autosync db"
    "tran db' = tran db" "fpow db' = fpow db"
proof -
  from assms obtain a1 b1 c1 d1 e1 f1 g1 h1 i1 where
    b': "db' = db\<lparr>dbfile := a1, fbp := b1, curs := c1, lsiz := d1, psiz := e1, count := f1,
                    frgcnt := g1, error := h1, flags := i1\<rparr>"
    unfolding same_conf_def by blast
  show "apow db' = apow db" "width db' = width db" "linear db' = linear db"
    "roff db' = roff db" "boff db' = boff db" "rhsiz db' = rhsiz db" "align db' = align db"
    "bnum db' = bnum db" "hashmurmur db' = hashmurmur db" "compr db' = compr db"
    "omode db' = omode db" "writer db' = writer db" "dfunit db' = dfunit db"
    "fbpnum db' = fbpnum db" "autotran db' = autotran db" "autosync db' = autosync db"
    "tran db' = tran db" "fpow db' = fpow db"
    unfolding b' by simp_all
qed

lemma same_conf_meta_ok: "same_conf db' db \<Longrightarrow> meta_ok db' = meta_ok db"
  by (simp add: meta_ok_def same_conf_fields)

lemma same_conf_record_bytes: "same_conf db' db \<Longrightarrow> record_bytes db' rec = record_bytes db rec"
  by (rule record_bytes_cong) (simp_all add: same_conf_fields)

lemma same_conf_rec_ok: "same_conf db' db \<Longrightarrow> rec_ok db' rec = rec_ok db rec"
  by (rule rec_ok_cong) (simp_all add: same_conf_fields)

lemma same_conf_rec_hsiz: "same_conf db' db \<Longrightarrow> rec_hsiz db' rec = rec_hsiz db rec"
  by (simp add: rec_hsiz_def same_conf_fields)

lemma same_conf_addr_ok: "same_conf db' db \<Longrightarrow> addr_ok db' off = addr_ok db off"
  by (simp add: addr_ok_def same_conf_fields)

lemma fetch_free_block_conf:
  "fetch_free_block db n = (fbo, db1) \<Longrightarrow>
     same_conf db1 db \<and> dbfile db1 = dbfile db \<and> lsiz db1 = lsiz db \<and> psiz db1 = psiz db
     \<and> count db1 = count db \<and> frgcnt db1 = frgcnt db"
proof -
  assume "fetch_free_block db n = (fbo, db1)"
  from fetch_free_block_cases [OF this]
  obtain b c where "db1 = db\<lparr>fbp := b, curs := c\<rparr>" by blast
  then show ?thesis by (simp add: same_conf_def)
qed

lemma adjust_record_conf:
  assumes "adjust_record db rec = (ok, rec1, db1)" and m: "meta_ok db"
    and ps: "r_psiz rec \<le> r_rsiz rec"
  shows "same_conf db1 db \<and> lsiz db1 = lsiz db \<and> psiz db1 = psiz db
     \<and> count db1 = count db \<and> frgcnt db1 = frgcnt db"
proof -
  from adjust_record_cases [OF m ps] assms(1)
  obtain a b c where "db1 = db\<lparr>dbfile := a, fbp := b, curs := c\<rparr>" by auto
  then show ?thesis by (simp add: same_conf_def)
qed

lemma set_chain_or_bucket_eq:
  "set_chain_or_bucket db bidx entoff off =
     (True, db\<lparr>dbfile := snd (File_write_fast (dbfile db)
                               (if entoff > 0 then entoff else boff db + bidx * width db)
                               (writefixnum (drop_bit (apow db) off) (width db)))\<rparr>)"
  by (simp add: set_chain_or_bucket_def set_chain_eq set_bucket_eq)

lemma rec_hsiz_upd [simp]:
  "rec_hsiz db (rec\<lparr>r_off := a, r_rsiz := b, r_psiz := c\<rparr>) = rec_hsiz db rec"
  by (simp add: rec_hsiz_def)

lemma take_whole_pad: "length xs = n \<Longrightarrow> take n (xs @ ys) = xs"
  by simp

lemma write_record_ok:
  assumes "rec_ok db0 rec" and "record_bytes db rec = record_bytes db0 rec"
  shows "write_record db rec over =
     (True, db\<lparr>dbfile :=
        (if over then snd (File_write_fast (dbfile db) (r_off rec) (record_bytes db0 rec))
         else snd (File_write (dbfile db) (r_off rec) (record_bytes db0 rec)))\<rparr>)"
proof -
  have "take (r_rsiz rec) (record_bytes db0 rec @ replicate (r_rsiz rec) 0) = record_bytes db0 rec"
    using length_record_bytes [OF assms(1)] by simp
  then show ?thesis
    unfolding write_record_eq assms(2) by simp
qed

lemma write_new_record_end:
  assumes m: "meta_ok db"
    and ok: "rec_ok db (rec\<lparr>r_off := lsiz db\<rparr>)"
    and fs: "psiz db \<le> lsiz db"
    and f: "(if usefbp then fetch_free_block db (r_rsiz rec) else (None, db)) = (None, db1)"
  shows "\<exists>db' m1.
     write_new_record db rec rsiz usefbp bidx entoff atran = (True, db')
     \<and> same_conf db' db \<and> count db' = count db \<and> frgcnt db' = frgcnt db
     \<and> lsiz db + r_rsiz rec \<le> psiz db' \<and> psiz db \<le> psiz db' \<and> psiz db' \<le> lsiz db'
     \<and> (\<forall>i. i < lsiz db \<or> lsiz db + r_rsiz rec \<le> i \<longrightarrow> m1 i = core_map (dbfile db) i)
     \<and> load_bytes m1 (lsiz db) (r_rsiz rec) = record_bytes db (rec\<lparr>r_off := lsiz db\<rparr>)
     \<and> core_map (dbfile db') =
          store_bytes m1 (if entoff > 0 then entoff else boff db + bidx * width db)
            (writefixnum (drop_bit (apow db) (lsiz db)) (width db))"
proof -
  have d1: "db1 = db"
  proof (cases usefbp)
    case True
    with f have ff: "fetch_free_block db (r_rsiz rec) = (None, db1)" by simp
    then show ?thesis
      by (auto simp: fetch_free_block_def split: if_splits option.splits)
  next
    case False
    with f show ?thesis by simp
  qed
  define rec2 where "rec2 = rec\<lparr>r_off := lsiz db\<rparr>"
  have lr: "length (record_bytes db rec2) = r_rsiz rec"
    using length_record_bytes [OF ok] by (simp add: rec2_def)
  have rb: "record_bytes (db\<lparr>lsiz := lsiz db + r_rsiz rec\<rparr>) rec2 = record_bytes db rec2"
    by (rule record_bytes_cong) simp_all
  have tk: "take (r_rsiz rec) (record_bytes db rec2 @ replicate (r_rsiz rec) 0)
              = record_bytes db rec2"
    using lr by simp
  define m1 where "m1 = store_bytes (core_map (dbfile db)) (lsiz db) (record_bytes db rec2)"
  define slot where "slot = (if entoff > 0 then entoff else boff db + bidx * width db)"
  define fx where "fx = writefixnum (drop_bit (apow db) (lsiz db)) (width db)"
  define db3 where "db3 = db\<lparr>lsiz := lsiz db + r_rsiz rec,
       dbfile := snd (File_write (dbfile db) (lsiz db) (record_bytes db rec2))\<rparr>"
  define db4 where "db4 = (if psiz db3 < lsiz db + r_rsiz rec
                           then db3\<lparr>psiz := lsiz db + r_rsiz rec\<rparr> else db3)"
  define db' where "db' = db4\<lparr>dbfile := snd (File_write_fast (dbfile db4) slot fx)\<rparr>"
  have w3: "write_record (db\<lparr>lsiz := lsiz db + r_rsiz rec\<rparr>) rec2 False = (True, db3)"
    unfolding write_record_eq rb by (simp add: db3_def rec2_def lr [unfolded rec2_def])
  have e: "write_new_record db rec rsiz usefbp bidx entoff atran = (True, db')"
    unfolding write_new_record_def f d1 Let_def option.case prod.case rec2_def [symmetric] w3
    by (simp add: set_chain_or_bucket_eq db'_def db4_def slot_def fx_def rec2_def db3_def)
  have c: "same_conf db' db" "count db' = count db" "frgcnt db' = frgcnt db"
    by (simp_all add: db'_def db4_def db3_def same_conf_def)
  have p: "lsiz db + r_rsiz rec \<le> psiz db'" "psiz db \<le> psiz db'" "psiz db' \<le> lsiz db'"
    using fs by (simp_all add: db'_def db4_def db3_def)
  have fr: "\<forall>i. i < lsiz db \<or> lsiz db + r_rsiz rec \<le> i \<longrightarrow> m1 i = core_map (dbfile db) i"
    using lr by (auto simp: m1_def store_bytes_apply)
  have ld: "load_bytes m1 (lsiz db) (r_rsiz rec) = record_bytes db rec2"
    unfolding m1_def lr [symmetric] by (rule load_store_same)
  have mp: "core_map (dbfile db') = store_bytes m1 slot fx"
    by (simp add: db'_def db4_def db3_def m1_def)
  show ?thesis
    using e c p fr ld mp unfolding rec2_def slot_def fx_def by blast
qed


lemma write_new_record_pool:
  assumes m: "meta_ok db"
    and ok: "rec_ok db rec"
    and rz: "rsiz = rec_hsiz db rec + r_ksiz rec + r_vsiz rec"
    and u: "usefbp"
    and f: "fetch_free_block db (r_rsiz rec) = (Some fb, db1)"
  shows "\<exists>db' m1 nsiz.
     write_new_record db rec rsiz usefbp bidx entoff atran = (True, db')
     \<and> same_conf db' db \<and> count db' = count db \<and> frgcnt db' = frgcnt db
     \<and> psiz db' = psiz db \<and> lsiz db' = lsiz db
     \<and> nsiz \<le> fb_rsiz fb - rsiz
     \<and> rec_ok db (rec\<lparr>r_off := fb_off fb, r_rsiz := fb_rsiz fb - nsiz,
                        r_psiz := fb_rsiz fb - rsiz - nsiz\<rparr>)
     \<and> (\<forall>i. i < fb_off fb \<or> fb_off fb + fb_rsiz fb \<le> i \<longrightarrow> m1 i = core_map (dbfile db) i)
     \<and> load_bytes m1 (fb_off fb) (fb_rsiz fb - nsiz)
         = record_bytes db (rec\<lparr>r_off := fb_off fb, r_rsiz := fb_rsiz fb - nsiz,
                                r_psiz := fb_rsiz fb - rsiz - nsiz\<rparr>)
     \<and> core_map (dbfile db') =
          store_bytes m1 (if entoff > 0 then entoff else boff db + bidx * width db)
            (writefixnum (drop_bit (apow db) (fb_off fb)) (width db))"
proof -
  from fetch_free_block_cases [OF f] have ge: "r_rsiz rec \<le> fb_rsiz fb" by simp
  from fetch_free_block_conf [OF f] have c1: "same_conf db1 db" and f1: "dbfile db1 = dbfile db"
    "lsiz db1 = lsiz db" "psiz db1 = psiz db" "count db1 = count db" "frgcnt db1 = frgcnt db"
    by simp_all
  from ok have sz: "r_rsiz rec = rsiz + r_psiz rec"
    by (simp add: rec_ok_def rz)
  define rec1 where "rec1 = rec\<lparr>r_off := fb_off fb, r_rsiz := fb_rsiz fb,
                                  r_psiz := fb_rsiz fb - rsiz\<rparr>"
  have m1: "meta_ok db1" using m same_conf_meta_ok [OF c1] by simp
  have p1: "r_psiz rec1 \<le> r_rsiz rec1" by (simp add: rec1_def)
  from adjust_record_cases [OF m1 p1] obtain nsiz db2 where
    ad: "adjust_record db1 rec1
           = (True, rec1\<lparr>r_rsiz := r_rsiz rec1 - nsiz, r_psiz := r_psiz rec1 - nsiz\<rparr>, db2)"
    and n: "nsiz \<le> r_psiz rec1" and sm: "r_psiz rec1 - nsiz \<le> INT16_MAX"
    and fr2: "\<forall>i. i < r_off rec1 + (r_rsiz rec1 - nsiz) \<or> r_off rec1 + r_rsiz rec1 \<le> i
                 \<longrightarrow> core_map (dbfile db2) i = core_map (dbfile db1) i"
    by blast
  from adjust_record_conf [OF ad m1 p1] have c2: "same_conf db2 db1" and f2: "lsiz db2 = lsiz db1"
    "psiz db2 = psiz db1" "count db2 = count db1" "frgcnt db2 = frgcnt db1"
    by simp_all
  have c20: "same_conf db2 db" using c2 c1 by (rule same_conf_trans)
  define rec2 where "rec2 = rec\<lparr>r_off := fb_off fb, r_rsiz := fb_rsiz fb - nsiz,
                        r_psiz := fb_rsiz fb - rsiz - nsiz\<rparr>"
  have r12: "rec1\<lparr>r_rsiz := r_rsiz rec1 - nsiz, r_psiz := r_psiz rec1 - nsiz\<rparr> = rec2"
    by (simp add: rec1_def rec2_def)
  have n': "nsiz \<le> fb_rsiz fb - rsiz" using n by (simp add: rec1_def)
  have ok2: "rec_ok db rec2"
    using ok sm n' ge sz
    by (auto simp: rec_ok_def rec2_def rec1_def split: option.splits)
  have lr: "length (record_bytes db rec2) = fb_rsiz fb - nsiz"
    using length_record_bytes [OF ok2] by (simp add: rec2_def)
  have rb: "record_bytes db2 rec2 = record_bytes db rec2"
    by (rule same_conf_record_bytes [OF c20])
  define m1 where "m1 = store_bytes (core_map (dbfile db2)) (fb_off fb) (record_bytes db rec2)"
  define slot where "slot = (if entoff > 0 then entoff else boff db + bidx * width db)"
  define fx where "fx = writefixnum (drop_bit (apow db) (fb_off fb)) (width db)"
  define db3 where "db3 = db2\<lparr>dbfile :=
       snd (File_write_fast (dbfile db2) (fb_off fb) (record_bytes db rec2))\<rparr>"
  define db' where "db' = db3\<lparr>dbfile := snd (File_write_fast (dbfile db3) slot fx)\<rparr>"
  have off2': "r_off rec2 = fb_off fb" by (simp add: rec2_def)
  have w3: "write_record db2 rec2 True = (True, db3)"
    unfolding db3_def write_record_ok [OF ok2 rb] off2' by simp
  have off2: "r_off rec2 = fb_off fb" "r_rsiz rec2 = fb_rsiz fb - nsiz" by (simp_all add: rec2_def)
  have cf3: "boff db3 = boff db" "width db3 = width db" "apow db3 = apow db"
    by (simp_all add: db3_def same_conf_fields [OF c20])
  have e: "write_new_record db rec rsiz usefbp bidx entoff atran = (True, db')"
    unfolding write_new_record_def Let_def
    by (simp add: u f rec1_def [symmetric] ad r12 w3 off2 set_chain_or_bucket_eq cf3
          db'_def slot_def fx_def)
  have c3: "same_conf db3 db2" by (simp add: db3_def same_conf_def)
  have c': "same_conf db' db3" by (simp add: db'_def same_conf_def)
  have c: "same_conf db' db"
    using c' c3 c20 by (blast intro: same_conf_trans)
  have fl: "count db' = count db" "frgcnt db' = frgcnt db" "psiz db' = psiz db" "lsiz db' = lsiz db"
    by (simp_all add: db'_def db3_def f2 f1)
  have fr: "\<forall>i. i < fb_off fb \<or> fb_off fb + fb_rsiz fb \<le> i \<longrightarrow> m1 i = core_map (dbfile db) i"
    using lr fr2 f1 by (auto simp: m1_def store_bytes_apply rec1_def)
  have ld: "load_bytes m1 (fb_off fb) (fb_rsiz fb - nsiz) = record_bytes db rec2"
    unfolding m1_def lr [symmetric] by (rule load_store_same)
  have mp: "core_map (dbfile db') = store_bytes m1 slot fx"
    by (simp add: db'_def db3_def m1_def)
  show ?thesis
    using e c fl n' ok2 fr ld mp unfolding rec2_def slot_def fx_def by blast
qed

subsection \<open>Setting the slot of a record\<close>

lemma load_store_inside:
  assumes l: "load_bytes m off (length (a @ b @ c)) = a @ b @ c" and n: "length b' = length b"
  shows "load_bytes (store_bytes m (off + length a) b') off (length (a @ b' @ c)) = a @ b' @ c"
proof -
  from load_bytes_prefix [OF l] have la: "load_bytes m off (length a) = a"
    and lbc: "load_bytes m (off + length a) (length (b @ c)) = b @ c" by simp_all
  from load_bytes_prefix(2) [OF lbc]
  have lc: "load_bytes m (off + length a + length b) (length c) = c" .
  have 1: "load_bytes (store_bytes m (off + length a) b') off (length a) = a"
    using la by (simp add: load_store_disjoint)
  have 2: "load_bytes (store_bytes m (off + length a) b') (off + length a) (length b') = b'"
    by (rule load_store_same)
  have 3: "load_bytes (store_bytes m (off + length a) b') (off + length a + length b') (length c) = c"
    using lc n by (simp add: load_store_disjoint)
  show ?thesis
    by (simp add: load_bytes_add 1 2 3)
qed

lemma step_dir_slot:
  "step_dir db kbuf pivot r = Some (off, entoff) \<Longrightarrow>
     (entoff = r_off r + 2 \<and> off = r_left r)
     \<or> (entoff = r_off r + 2 + width db \<and> off = r_right r \<and> \<not> linear db)"
  by (auto simp: step_dir_def Let_def split: if_splits)

lemma step_dir_conf:
  assumes c: "same_conf db' db"
  shows "step_dir db' kbuf pivot r = step_dir db kbuf pivot r"
  unfolding step_dir_def hash_record_def same_conf_fields [OF c] ..

lemma step_dir_relink:
  assumes s: "step_dir db kbuf pivot r = Some (off, entoff)" and w: "0 < width db"
  shows "step_dir db kbuf pivot (relink r entoff x) = Some (x, entoff)"
  using step_dir_slot [OF s] s w
  by (auto simp: step_dir_def relink_def Let_def split: if_splits)

lemma meta_ok_width: "meta_ok db \<Longrightarrow> 0 < width db"
  by (auto simp: meta_ok_def HDBWIDTHSMALL_def HDBWIDTHLARGE_def)

lemma rec_ok_relink:
  assumes ok: "rec_ok db r" and x: "addr_ok db x"
    and s: "step_dir db kbuf pivot r = Some (off, entoff)"
  shows "rec_ok db (relink r entoff x)"
  using step_dir_slot [OF s] ok x
  by (auto simp: rec_ok_def relink_def rec_hsiz_def split: option.splits)

lemma record_bytes_relink:
  assumes m: "meta_ok db" and ok: "rec_ok db r" and x: "addr_ok db x"
    and s: "step_dir db kbuf pivot r = Some (off, entoff)"
    and l: "load_bytes mp (r_off r) (r_rsiz r) = record_bytes db r"
  shows "load_bytes (store_bytes mp entoff (writefixnum (drop_bit (apow db) x) (width db)))
           (r_off r) (r_rsiz r) = record_bytes db (relink r entoff x)"
proof -
  from ok obtain k v where kv: "r_kbuf r = Some k" "r_vbuf r = Some v"
    by (auto simp: rec_ok_def split: option.splits)
  define H2 where "H2 = (if r_psiz r < 0x100 then [HDBRECMAGIC, of_nat (r_psiz r)]
      else [of_nat (r_psiz r div 256), of_nat (r_psiz r)])"
  define L where "L = writefixnum (drop_bit (apow db) (r_left r)) (width db)"
  define R where "R = (if linear db then [] else writefixnum (drop_bit (apow db) (r_right r)) (width db))"
  define T where "T = writevarnum (r_ksiz r) @ writevarnum (r_vsiz r)
     @ (k @ v @ (if r_psiz r > 0 then HDBPADMAGIC # replicate (r_psiz r - 1) 0 else []))"
  define X where "X = writefixnum (drop_bit (apow db) x) (width db)"
  have rb: "record_bytes db r = H2 @ L @ R @ T"
    unfolding record_bytes_split [OF ok kv] H2_def L_def R_def T_def by simp
  have lens: "length H2 = 2" "length L = width db" "length X = width db"
    by (simp_all add: H2_def L_def X_def)
  have lr: "length (H2 @ L @ R @ T) = r_rsiz r"
    using length_record_bytes [OF ok] rb by simp
  have ok': "rec_ok db (relink r entoff x)" by (rule rec_ok_relink [OF ok x s])
  from step_dir_slot [OF s] show ?thesis
  proof
    assume e: "entoff = r_off r + 2 \<and> off = r_left r"
    then have rl: "relink r entoff x = r\<lparr>r_left := x\<rparr>" by (simp add: relink_def)
    have kv': "r_kbuf (r\<lparr>r_left := x\<rparr>) = Some k" "r_vbuf (r\<lparr>r_left := x\<rparr>) = Some v"
      using kv by simp_all
    have rb': "record_bytes db (r\<lparr>r_left := x\<rparr>) = H2 @ X @ R @ T"
      unfolding record_bytes_split [OF ok' [unfolded rl] kv'] H2_def X_def R_def T_def by simp
    have "load_bytes mp (r_off r) (length (H2 @ L @ (R @ T))) = H2 @ L @ (R @ T)"
      using l rb lr by simp
    from load_store_inside [OF this, of X] lens
    have "load_bytes (store_bytes mp (r_off r + 2) X) (r_off r) (length (H2 @ X @ (R @ T)))
            = H2 @ X @ (R @ T)" by simp
    moreover have "length (H2 @ X @ (R @ T)) = r_rsiz r" using lr lens by simp
    ultimately show ?thesis
      unfolding rl rb' using e by (simp add: X_def)
  next
    assume e: "entoff = r_off r + 2 + width db \<and> off = r_right r \<and> \<not> linear db"
    with meta_ok_width [OF m] have rl: "relink r entoff x = r\<lparr>r_right := x\<rparr>"
      by (simp add: relink_def)
    have kv': "r_kbuf (r\<lparr>r_right := x\<rparr>) = Some k" "r_vbuf (r\<lparr>r_right := x\<rparr>) = Some v"
      using kv by simp_all
    have R': "R = writefixnum (drop_bit (apow db) (r_right r)) (width db)"
      using e by (simp add: R_def)
    have rb': "record_bytes db (r\<lparr>r_right := x\<rparr>) = H2 @ L @ X @ T"
      unfolding record_bytes_split [OF ok' [unfolded rl] kv'] H2_def X_def L_def T_def
      using e by simp
    have "load_bytes mp (r_off r) (length ((H2 @ L) @ R @ T)) = (H2 @ L) @ R @ T"
      using l rb lr by simp
    from load_store_inside [OF this, of X] lens R'
    have "load_bytes (store_bytes mp (r_off r + (2 + width db)) X) (r_off r)
            (length ((H2 @ L) @ X @ T)) = (H2 @ L) @ X @ T" by simp
    moreover have "length ((H2 @ L) @ X @ T) = r_rsiz r" using lr lens R' by simp
    ultimately show ?thesis
      unfolding rl rb' using e by (simp add: X_def add.assoc)
  qed
qed

lemma relink_fields [simp]:
  "r_off (relink r e x) = r_off r" "r_rsiz (relink r e x) = r_rsiz r"
  "r_kbuf (relink r e x) = r_kbuf r" "r_vbuf (relink r e x) = r_vbuf r"
  by (simp_all add: relink_def)

lemma rec_at_relink:
  assumes m: "meta_ok db" and a: "rec_at db r" and x: "addr_ok db x"
    and s: "step_dir db kbuf pivot r = Some (off, entoff)"
    and c: "same_conf db' db" and ps: "psiz db \<le> psiz db'"
    and mp: "load_bytes (core_map (dbfile db')) (r_off r) (r_rsiz r)
              = load_bytes (store_bytes (core_map (dbfile db)) entoff
                              (writefixnum (drop_bit (apow db) x) (width db)))
                  (r_off r) (r_rsiz r)"
  shows "rec_at db' (relink r entoff x)"
proof -
  from a have ok: "rec_ok db r" and b: "roff db \<le> r_off r" "r_off r + r_rsiz r \<le> psiz db"
    and l: "load_bytes (core_map (dbfile db)) (r_off r) (r_rsiz r) = record_bytes db r"
    by (simp_all add: rec_at_def)
  have ok': "rec_ok db (relink r entoff x)" by (rule rec_ok_relink [OF ok x s])
  show ?thesis
    unfolding rec_at_def same_conf_rec_ok [OF c] same_conf_record_bytes [OF c]
      same_conf_fields(4) [OF c]
    using ok' b ps mp record_bytes_relink [OF m ok x s l] by simp
qed

lemma rec_at_frame:
  assumes a: "rec_at db r" and c: "same_conf db' db" and ps: "psiz db \<le> psiz db'"
    and mp: "load_bytes (core_map (dbfile db')) (r_off r) (r_rsiz r)
              = load_bytes (core_map (dbfile db)) (r_off r) (r_rsiz r)"
  shows "rec_at db' r"
  using a ps mp
  unfolding rec_at_def same_conf_rec_ok [OF c] same_conf_record_bytes [OF c]
      same_conf_fields(4) [OF c]
  by simp

subsection \<open>Chains after a write\<close>

lemma chain_frame:
  assumes c: "same_conf db' db" and ps: "psiz db \<le> psiz db'"
  shows "chain db kbuf pivot rs off entoff off' entoff' \<Longrightarrow>
     (\<forall>r\<in>set rs. load_bytes (core_map (dbfile db')) (r_off r) (r_rsiz r)
                    = load_bytes (core_map (dbfile db)) (r_off r) (r_rsiz r)) \<Longrightarrow>
     chain db' kbuf pivot rs off entoff off' entoff'"
proof (induction rs arbitrary: off entoff)
  case Nil
  then show ?case by simp
next
  case (Cons r rs)
  from Cons.prems(1) obtain off1 entoff1 where
    o: "off > 0" "r_off r = off" and a: "rec_at db r"
    and s: "step_dir db kbuf pivot r = Some (off1, entoff1)"
    and ch: "chain db kbuf pivot rs off1 entoff1 off' entoff'"
    by (auto split: option.splits)
  have a': "rec_at db' r" using Cons.prems(2) by (intro rec_at_frame [OF a c ps]) simp
  have "chain db' kbuf pivot rs off1 entoff1 off' entoff'"
    using Cons.prems(2) by (intro Cons.IH [OF ch]) simp
  with o a' s show ?case by (simp add: step_dir_conf [OF c])
qed

lemma rec_at_slots:
  assumes m: "meta_ok db" and a: "rec_at db r"
    and s: "step_dir db kbuf pivot r = Some (off, entoff)"
  shows "r_off r + 2 \<le> entoff" and "entoff + width db \<le> r_off r + r_rsiz r"
proof -
  from a have ok: "rec_ok db r" by (simp add: rec_at_def)
  then have sz: "r_rsiz r = rec_hsiz db r + r_ksiz r + r_vsiz r + r_psiz r"
    by (simp add: rec_ok_def)
  from step_dir_slot [OF s] show "r_off r + 2 \<le> entoff" by auto
  from step_dir_slot [OF s] sz show "entoff + width db \<le> r_off r + r_rsiz r"
    by (auto simp: rec_hsiz_def)
qed

lemma chain_relink:
  assumes m: "meta_ok db" and c: "same_conf db' db" and ps: "psiz db \<le> psiz db'"
    and x: "addr_ok db x"
  shows "chain db kbuf pivot rs off entoff off' entoff' \<Longrightarrow> rs \<noteq> [] \<Longrightarrow> recs_apart rs \<Longrightarrow>
     (\<forall>r\<in>set rs. load_bytes (core_map (dbfile db')) (r_off r) (r_rsiz r)
                    = load_bytes (store_bytes (core_map (dbfile db)) entoff'
                                    (writefixnum (drop_bit (apow db) x) (width db)))
                        (r_off r) (r_rsiz r)) \<Longrightarrow>
     chain db' kbuf pivot (relink_last rs entoff' x) off entoff x entoff'"
proof (induction rs arbitrary: off entoff)
  case Nil
  then show ?case by simp
next
  case (Cons r rs)
  from Cons.prems(1) obtain off1 entoff1 where
    o: "off > 0" "r_off r = off" and a: "rec_at db r"
    and s: "step_dir db kbuf pivot r = Some (off1, entoff1)"
    and ch: "chain db kbuf pivot rs off1 entoff1 off' entoff'"
    by (auto split: option.splits)
  show ?case
  proof (cases "rs = []")
    case True
    with ch have e: "off1 = off'" "entoff1 = entoff'" by simp_all
    have a': "rec_at db' (relink r entoff' x)"
      using Cons.prems(4) by (intro rec_at_relink [OF m a x s [unfolded e] c ps]) simp
    have s': "step_dir db' kbuf pivot (relink r entoff' x) = Some (x, entoff')"
      unfolding step_dir_conf [OF c]
      by (rule step_dir_relink [OF s [unfolded e] meta_ok_width [OF m]])
    show ?thesis
      using True o a' s' by (simp add: relink_last_def)
  next
    case False
    define l where "l = last rs"
    have lin: "l \<in> set rs" using False by (simp add: l_def)
    from Cons.prems(3) have ap: "apart (r_off r) (r_rsiz r) (r_off l) (r_rsiz l)"
      and ra: "recs_apart rs"
      using lin by (auto simp: list_all_iff)
    have last_facts: "rec_at db l \<and> step_dir db kbuf pivot l = Some (off', entoff')"
      using ch False unfolding l_def
    proof (induction rs arbitrary: off1 entoff1)
      case Nil
      then show ?case by simp
    next
      case (Cons q qs)
      then show ?case
        by (cases "qs = []") (auto split: option.splits)
    qed
    then have la: "rec_at db l" and ls: "step_dir db kbuf pivot l = Some (off', entoff')"
      by simp_all
    from rec_at_slots [OF m la ls]
    have sl: "r_off l + 2 \<le> entoff'" "entoff' + width db \<le> r_off l + r_rsiz l" .
    have "load_bytes (core_map (dbfile db')) (r_off r) (r_rsiz r)
            = load_bytes (store_bytes (core_map (dbfile db)) entoff'
                          (writefixnum (drop_bit (apow db) x) (width db))) (r_off r) (r_rsiz r)"
      using Cons.prems(4) by simp
    also have "\<dots> = load_bytes (core_map (dbfile db)) (r_off r) (r_rsiz r)"
      using ap sl by (intro load_store_disjoint) (auto simp: apart_def)
    finally have a': "rec_at db' r" by (rule rec_at_frame [OF a c ps])
    have "chain db' kbuf pivot (relink_last rs entoff' x) off1 entoff1 x entoff'"
      using Cons.prems(4) by (intro Cons.IH [OF ch False ra]) simp
    moreover have "relink_last (r # rs) entoff' x = r # relink_last rs entoff' x"
      using False by (simp add: relink_last_def)
    ultimately show ?thesis
      using o a' s by (simp add: step_dir_conf [OF c])
  qed
qed

lemma bucket_off_store:
  assumes x: "addr_ok db x" and c: "same_conf db' db"
    and mp: "core_map (dbfile db') = store_bytes m1 (boff db + bidx * width db)
                (writefixnum (drop_bit (apow db) x) (width db))"
  shows "bucket_off db' bidx = x"
proof -
  have "load_bytes (core_map (dbfile db')) (boff db + bidx * width db) (width db)
          = writefixnum (drop_bit (apow db) x) (width db)"
    unfolding mp using load_store_same [of m1 "boff db + bidx * width db"
        "writefixnum (drop_bit (apow db) x) (width db)"] by simp
  then show ?thesis
    unfolding bucket_off_def same_conf_fields [OF c]
    using x readfixnum_writefixnum [of "drop_bit (apow db) x" "width db" "[]"]
    by (simp add: addr_ok_def push_drop_aligned)
qed

lemma bucket_off_frame:
  assumes c: "same_conf db' db"
    and mp: "load_bytes (core_map (dbfile db')) (boff db + bidx * width db) (width db)
              = load_bytes (core_map (dbfile db)) (boff db + bidx * width db) (width db)"
  shows "bucket_off db' bidx = bucket_off db bidx"
  unfolding bucket_off_def same_conf_fields [OF c] mp ..

subsection \<open>The implicit transaction and the size of a record\<close>

lemma walwrite_eq: "walwrite core off n base = (True, snd (walwrite core off n base))"
  using walwrite_fields(10) [of core off n base]
  by (cases "walwrite core off n base") simp

lemma length_meta_head: "length (meta_head db) = 64"
  by (simp add: meta_head_def HDBMAGICDATA_def)

lemma File_end_transaction_commit:
  "fst (File_end_transaction core True)"
  "core_map (snd (File_end_transaction core True)) = core_map core"
  by (simp_all add: File_end_transaction_def Let_def)

lemma auto_begin_ok:
  "\<exists>atran db1. auto_begin db = (True, atran, db1) \<and> same_conf db1 db
     \<and> core_map (dbfile db1) = core_map (dbfile db) \<and> fbp db1 = fbp db \<and> lsiz db1 = lsiz db
     \<and> psiz db1 = psiz db \<and> count db1 = count db \<and> frgcnt db1 = frgcnt db"
proof (cases "autotran db \<and> \<not> tran db")
  case True
  define f2 where "f2 = snd (File_begin_transaction (dbfile db) (autosync db) (boff db))"
  define f3 where "f3 = snd (walwrite f2 HDBMOFFCOUNT (HDBMOFFOPAQUE - HDBMOFFCOUNT) 0)"
  have b: "File_begin_transaction (dbfile db) (autosync db) (boff db) = (True, f2)"
    by (simp add: f2_def File_begin_transaction_def Let_def)
  have w: "File_write_transaction f2 HDBMOFFCOUNT (HDBMOFFOPAQUE - HDBMOFFCOUNT) = (True, f3)"
    unfolding File_write_transaction_def f3_def by (rule walwrite_eq)
  have e: "auto_begin db = (True, True, db\<lparr>dbfile := f3\<rparr>)"
    using True by (simp add: auto_begin_def begin_auto_transaction_def b w)
  have mp: "core_map f3 = core_map (dbfile db)"
    unfolding f3_def walwrite_fields f2_def
    by (simp add: File_begin_transaction_def Let_def)
  show ?thesis
    unfolding e using mp by (auto simp: same_conf_def)
next
  case False
  then have "auto_begin db = (True, False, db)" by (auto simp: auto_begin_def)
  then show ?thesis by auto
qed

lemma auto_finish_ok:
  "\<exists>db1. auto_finish db atran = (True, db1) \<and> same_conf db1 db
     \<and> (\<forall>i. 64 \<le> i \<longrightarrow> core_map (dbfile db1) i = core_map (dbfile db) i)
     \<and> fbp db1 = fbp db \<and> lsiz db1 = lsiz db
     \<and> psiz db1 = psiz db \<and> count db1 = count db \<and> frgcnt db1 = frgcnt db"
proof -
  consider (a) "atran" | (b) "\<not> atran" "autosync db" | (c) "\<not> atran" "\<not> autosync db"
    by blast
  then show ?thesis
  proof cases
    case a
    define hd where "hd = hton64 (of_int64 (count db)) @ hton64 (lsiz db)"
    define f1 where "f1 = snd (File_write_fast (dbfile db) HDBMOFFCOUNT hd)"
    define f2 where "f2 = snd (File_end_transaction f1 True)"
    have d: "dump_auto_meta db = (True, db\<lparr>dbfile := f1\<rparr>)"
      unfolding dump_auto_meta_def Let_def hd_def [symmetric]
      by (subst File_write_fast_eq) (simp add: f1_def)
    have en: "File_end_transaction f1 True = (True, f2)"
      using File_end_transaction_commit(1) [of f1]
      by (cases "File_end_transaction f1 True") (simp add: f2_def)
    have e: "auto_finish db atran = (True, db\<lparr>dbfile := f2\<rparr>)"
      using a by (simp add: auto_finish_def commit_auto_transaction_def d en)
    have lh: "length hd = 16" by (simp add: hd_def)
    have mp: "core_map f2 = store_bytes (core_map (dbfile db)) HDBMOFFCOUNT hd"
      unfolding f2_def File_end_transaction_commit f1_def by simp
    show ?thesis
      unfolding e using lh
      by (simp add: same_conf_def mp store_bytes_apply HDBMOFFCOUNT_def)
  next
    case b
    define f1 where "f1 = snd (File_write (dbfile db) 0 (meta_head db))"
    have d: "dump_meta db = (True, db\<lparr>dbfile := f1\<rparr>)"
      unfolding dump_meta_def Let_def
      by (subst File_write_eq) (simp add: f1_def)
    have e: "auto_finish db atran = (True, db\<lparr>dbfile := f1\<rparr>)"
      using b by (simp add: auto_finish_def synchronize_meta_def d File_synchronize_def)
    have mp: "core_map f1 = store_bytes (core_map (dbfile db)) 0 (meta_head db)"
      unfolding f1_def by simp
    show ?thesis
      unfolding e
      by (simp add: same_conf_def mp store_bytes_apply length_meta_head)
  next
    case c
    then have "auto_finish db atran = (True, db)" by (simp add: auto_finish_def)
    then show ?thesis by simp
  qed
qed

lemma calc_record_size_hsiz:
  assumes "ksiz < 2 ^ 35" and "vsiz < 2 ^ 35" and "r_ksiz rec = ksiz" and "r_vsiz rec = vsiz"
  shows "calc_record_size db ksiz vsiz = rec_hsiz db rec + ksiz + vsiz"
  using assms by (auto simp: calc_record_size_def rec_hsiz_def length_writevarnum)

lemma calc_record_padding_le:
  assumes m: "meta_ok db"
  shows "calc_record_padding db rsiz \<le> INT16_MAX"
proof -
  from m have ap: "apow db \<le> 15" and al: "align db = 2 ^ apow db"
    by (simp_all add: meta_ok_def HDBMAXAPOW_def)
  have "(2::nat) ^ apow db \<le> 2 ^ 15" using ap by (intro power_increasing) simp_all
  then have "align db \<le> 32768" using al by simp
  then show ?thesis
    by (auto simp: calc_record_padding_def Let_def INT16_MAX_def)
qed

lemma addr_ok_0 [simp]: "addr_ok db 0"
  by (simp add: addr_ok_def)

subsection \<open>Linking a new record\<close>

lemma load_store_cong:
  assumes "\<forall>i. a \<le> i \<and> i < a + n \<longrightarrow> m1 i = m i"
  shows "load_bytes (store_bytes m1 e buf) a n = load_bytes (store_bytes m e buf) a n"
  using assms by (auto simp: load_bytes_eq_iff store_bytes_apply)

lemma load_cong:
  assumes "\<forall>i. a \<le> i \<and> i < a + n \<longrightarrow> m1 i = m i"
  shows "load_bytes m1 a n = load_bytes m a n"
  using assms by (auto simp: load_bytes_eq_iff)

lemma chain_last:
  "chain db kbuf pivot rs off entoff off' entoff' \<Longrightarrow> rs \<noteq> [] \<Longrightarrow>
     last rs \<in> set rs \<and> rec_at db (last rs)
     \<and> step_dir db kbuf pivot (last rs) = Some (off', entoff')"
proof (induction rs arbitrary: off entoff)
  case Nil
  then show ?case by simp
next
  case (Cons q qs)
  then show ?case
    by (cases "qs = []") (auto split: option.splits)
qed

lemma chain_roff:
  "chain db kbuf pivot rs off entoff off' entoff' \<Longrightarrow> \<forall>r\<in>set rs. roff db \<le> r_off r"
  by (induction rs arbitrary: off entoff) (auto simp: rec_at_def split: option.splits)

lemma bucket_slot_below:
  assumes m: "meta_ok db" and bi: "bidx < bnum db"
  shows "boff db + bidx * width db + width db \<le> roff db" and "0 < roff db"
proof -
  from m have b: "boff db + width db * bnum db \<le> roff db" and h: "HDBHEADSIZ \<le> boff db"
    by (simp_all add: meta_ok_def)
  have "bidx * width db + width db = width db * Suc bidx" by simp
  also have "\<dots> \<le> width db * bnum db" using bi by (intro mult_le_mono2) simp
  finally show "boff db + bidx * width db + width db \<le> roff db" using b by simp
  from b h show "0 < roff db" by (simp add: HDBHEADSIZ_def)
qed

lemma link_new_record:
  assumes m: "meta_ok db" and c: "same_conf db' db" and ps: "psiz db \<le> psiz db'"
    and ch: "chain db kbuf pivot rs (bucket_off db bidx) 0 offE entoff"
    and ra: "recs_apart rs" and bi: "bidx < bnum db"
    and ok2: "rec_ok db rec2" and b1: "roff db \<le> r_off rec2"
    and b2: "r_off rec2 + r_rsiz rec2 \<le> psiz db'" and ad: "addr_ok db (r_off rec2)"
    and le: "r_rsiz rec2 \<le> B"
    and ap: "\<forall>r\<in>set rs. apart (r_off rec2) B (r_off r) (r_rsiz r)"
    and fr: "\<forall>i. i < r_off rec2 \<or> r_off rec2 + B \<le> i \<longrightarrow> m1 i = core_map (dbfile db) i"
    and ld: "load_bytes m1 (r_off rec2) (r_rsiz rec2) = record_bytes db rec2"
    and mp: "core_map (dbfile db') =
               store_bytes m1 (if entoff > 0 then entoff else boff db + bidx * width db)
                 (writefixnum (drop_bit (apow db) (r_off rec2)) (width db))"
  shows "rec_at db' rec2
     \<and> chain db' kbuf pivot (relink_last rs entoff (r_off rec2)) (bucket_off db' bidx) 0
         (r_off rec2) entoff"
proof -
  define slot where "slot = (if entoff > 0 then entoff else boff db + bidx * width db)"
  define fx where "fx = writefixnum (drop_bit (apow db) (r_off rec2)) (width db)"
  have lfx: "length fx = width db" by (simp add: fx_def)
  note bs = bucket_slot_below [OF m bi]
  have mp': "core_map (dbfile db') = store_bytes m1 slot fx"
    using mp by (simp add: slot_def fx_def)
  \<comment> \<open>where the slot is\<close>
  have slot_cases: "(rs = [] \<and> entoff = 0 \<and> slot = boff db + bidx * width db)
      \<or> (rs \<noteq> [] \<and> entoff > 0 \<and> slot = entoff
          \<and> r_off (last rs) + 2 \<le> entoff
          \<and> entoff + width db \<le> r_off (last rs) + r_rsiz (last rs))"
  proof (cases "rs = []")
    case True
    with ch show ?thesis by (simp add: slot_def)
  next
    case False
    from chain_last [OF ch False] have la: "rec_at db (last rs)"
      and ls: "step_dir db kbuf pivot (last rs) = Some (offE, entoff)" by simp_all
    from rec_at_slots [OF m la ls] False show ?thesis by (simp add: slot_def)
  qed
  \<comment> \<open>the slot is apart from the new record\<close>
  have sa: "slot + width db \<le> r_off rec2 \<or> r_off rec2 + B \<le> slot"
  proof (cases "rs = []")
    case True
    with slot_cases bs b1 show ?thesis by simp
  next
    case False
    with chain_last [OF ch False] ap
    have "apart (r_off rec2) B (r_off (last rs)) (r_rsiz (last rs))" by simp
    with slot_cases False show ?thesis by (auto simp: apart_def)
  qed
  have "load_bytes (core_map (dbfile db')) (r_off rec2) (r_rsiz rec2)
          = load_bytes m1 (r_off rec2) (r_rsiz rec2)"
    unfolding mp' using sa le lfx by (intro load_store_disjoint) auto
  with ld have l2: "load_bytes (core_map (dbfile db')) (r_off rec2) (r_rsiz rec2)
                      = record_bytes db rec2" by simp
  have a2: "rec_at db' rec2"
    unfolding rec_at_def same_conf_rec_ok [OF c] same_conf_record_bytes [OF c]
      same_conf_fields(4) [OF c]
    using ok2 b1 b2 l2 by simp
  \<comment> \<open>the records of the chain keep their bytes, but for the slot\<close>
  have rs_bytes: "\<forall>r\<in>set rs. load_bytes (core_map (dbfile db')) (r_off r) (r_rsiz r)
                    = load_bytes (store_bytes (core_map (dbfile db)) slot fx) (r_off r) (r_rsiz r)"
  proof
    fix r assume r: "r \<in> set rs"
    with ap have "apart (r_off rec2) B (r_off r) (r_rsiz r)" by simp
    with fr have "\<forall>i. r_off r \<le> i \<and> i < r_off r + r_rsiz r \<longrightarrow> m1 i = core_map (dbfile db) i"
      by (auto simp: apart_def)
    then show "load_bytes (core_map (dbfile db')) (r_off r) (r_rsiz r)
                 = load_bytes (store_bytes (core_map (dbfile db)) slot fx) (r_off r) (r_rsiz r)"
      unfolding mp' by (rule load_store_cong)
  qed
  show ?thesis
  proof (cases "rs = []")
    case True
    with slot_cases have s0: "slot = boff db + bidx * width db" and e0: "entoff = 0" by simp_all
    have "bucket_off db' bidx = r_off rec2"
      using mp' unfolding s0 fx_def by (rule bucket_off_store [OF ad c])
    with a2 True e0 show ?thesis by (simp add: relink_last_def)
  next
    case False
    with slot_cases have s1: "slot = entoff" and e1: "entoff > 0"
      and sl: "r_off (last rs) + 2 \<le> entoff" by simp_all
    from chain_roff [OF ch] chain_last [OF ch False] have "roff db \<le> r_off (last rs)" by simp
    with sl have se: "roff db \<le> entoff" by simp
    have "load_bytes (core_map (dbfile db')) (boff db + bidx * width db) (width db)
            = load_bytes m1 (boff db + bidx * width db) (width db)"
      unfolding mp' s1 using se bs by (intro load_store_disjoint) simp
    also have "\<dots> = load_bytes (core_map (dbfile db)) (boff db + bidx * width db) (width db)"
      using fr bs b1 by (intro load_cong) auto
    finally have bo: "bucket_off db' bidx = bucket_off db bidx"
      by (rule bucket_off_frame [OF c])
    have "chain db' kbuf pivot (relink_last rs entoff (r_off rec2)) (bucket_off db bidx) 0
            (r_off rec2) entoff"
      using rs_bytes unfolding s1 fx_def
      by (intro chain_relink [OF m c ps ad ch False ra]) simp
    with a2 bo show ?thesis by simp
  qed
qed

subsection \<open>A new record in its chain\<close>

lemma chain_rec_at:
  "chain db kbuf pivot rs off entoff off' entoff' \<Longrightarrow> \<forall>r\<in>set rs. rec_at db r"
  by (induction rs arbitrary: off entoff) (auto split: option.splits)

lemma rec_ok_off [simp]: "rec_ok db (rec\<lparr>r_off := x\<rparr>) = rec_ok db rec"
  by (auto simp: rec_ok_def rec_hsiz_def split: option.splits)

lemma write_new_record_linked:
  assumes m: "meta_ok db"
    and fs: "psiz db \<le> lsiz db" "roff db \<le> lsiz db" "addr_ok db (lsiz db)"
    and bi: "bidx < bnum db"
    and ok: "rec_ok db rec" and rz: "rsiz = rec_hsiz db rec + r_ksiz rec + r_vsiz rec"
    and ch: "chain db kbuf pivot rs (bucket_off db bidx) 0 offE entoff"
    and ra: "recs_apart rs" and po: "pool_ok db rs"
  shows "\<exists>db' rec2.
     write_new_record db rec rsiz usefbp bidx entoff atran = (True, db')
     \<and> same_conf db' db \<and> count db' = count db \<and> frgcnt db' = frgcnt db
     \<and> psiz db \<le> psiz db' \<and> psiz db' \<le> lsiz db'
     \<and> rec_at db' rec2 \<and> 0 < r_off rec2
     \<and> r_kbuf rec2 = r_kbuf rec \<and> r_vbuf rec2 = r_vbuf rec
     \<and> r_left rec2 = r_left rec \<and> r_right rec2 = r_right rec
     \<and> chain db' kbuf pivot (relink_last rs entoff (r_off rec2)) (bucket_off db' bidx) 0
         (r_off rec2) entoff"
proof -
  note bs = bucket_slot_below [OF m bi]
  obtain fbo db1 where
    f: "(if usefbp then fetch_free_block db (r_rsiz rec) else (None, db)) = (fbo, db1)"
    by (cases "if usefbp then fetch_free_block db (r_rsiz rec) else (None, db)") blast
  show ?thesis
  proof (cases fbo)
    case None
    define rec2 where "rec2 = rec\<lparr>r_off := lsiz db\<rparr>"
    have ok2: "rec_ok db rec2" using ok by (simp add: rec2_def)
    from write_new_record_end [OF m ok2 [unfolded rec2_def] fs(1) f [unfolded None],
        of rsiz bidx entoff atran]
    obtain db' m1 where
      e: "write_new_record db rec rsiz usefbp bidx entoff atran = (True, db')"
      and c: "same_conf db' db" and cf: "count db' = count db" "frgcnt db' = frgcnt db"
      and p: "lsiz db + r_rsiz rec \<le> psiz db'" "psiz db \<le> psiz db'" "psiz db' \<le> lsiz db'"
      and fr: "\<forall>i. i < lsiz db \<or> lsiz db + r_rsiz rec \<le> i \<longrightarrow> m1 i = core_map (dbfile db) i"
      and ld: "load_bytes m1 (lsiz db) (r_rsiz rec) = record_bytes db rec2"
      and mp: "core_map (dbfile db') =
          store_bytes m1 (if entoff > 0 then entoff else boff db + bidx * width db)
            (writefixnum (drop_bit (apow db) (lsiz db)) (width db))"
      unfolding rec2_def by blast
    have o2: "r_off rec2 = lsiz db" "r_rsiz rec2 = r_rsiz rec" by (simp_all add: rec2_def)
    have ap: "\<forall>r\<in>set rs. apart (r_off rec2) (r_rsiz rec) (r_off r) (r_rsiz r)"
      using chain_rec_at [OF ch] fs(1) by (auto simp: apart_def rec_at_def o2)
    have "rec_at db' rec2
      \<and> chain db' kbuf pivot (relink_last rs entoff (r_off rec2)) (bucket_off db' bidx) 0
          (r_off rec2) entoff"
      using fs p fr ld mp
      by (intro link_new_record [OF m c p(2) ch ra bi ok2, where B = "r_rsiz rec" and ?m1.0 = m1] ap)
         (simp_all add: o2)
    moreover have "0 < r_off rec2" using fs(2) bs(2) by (simp add: o2)
    ultimately show ?thesis
      using e c cf p by (intro exI [of _ db'] exI [of _ rec2]) (simp add: rec2_def)
  next
    case (Some fb)
    with f have u: "usefbp" and ff: "fetch_free_block db (r_rsiz rec) = (Some fb, db1)"
      by (auto split: if_splits)
    from fetch_free_block_cases [OF ff] have fin: "fb \<in> set (fbp db)"
      and ge: "r_rsiz rec \<le> fb_rsiz fb" by simp_all
    from po fin have pb: "roff db \<le> fb_off fb" "fb_off fb + fb_rsiz fb \<le> psiz db"
      "addr_ok db (fb_off fb)"
      and pa: "\<forall>r\<in>set rs. apart (fb_off fb) (fb_rsiz fb) (r_off r) (r_rsiz r)"
      by (auto simp: pool_ok_def list_all_iff)
    from write_new_record_pool [OF m ok rz u ff, of bidx entoff atran]
    obtain db' m1 nsiz where
      e: "write_new_record db rec rsiz usefbp bidx entoff atran = (True, db')"
      and c: "same_conf db' db" and cf: "count db' = count db" "frgcnt db' = frgcnt db"
      and p: "psiz db' = psiz db" "lsiz db' = lsiz db"
      and n: "nsiz \<le> fb_rsiz fb - rsiz"
      and ok2: "rec_ok db (rec\<lparr>r_off := fb_off fb, r_rsiz := fb_rsiz fb - nsiz,
                        r_psiz := fb_rsiz fb - rsiz - nsiz\<rparr>)"
      and fr: "\<forall>i. i < fb_off fb \<or> fb_off fb + fb_rsiz fb \<le> i \<longrightarrow> m1 i = core_map (dbfile db) i"
      and ld: "load_bytes m1 (fb_off fb) (fb_rsiz fb - nsiz)
         = record_bytes db (rec\<lparr>r_off := fb_off fb, r_rsiz := fb_rsiz fb - nsiz,
                                r_psiz := fb_rsiz fb - rsiz - nsiz\<rparr>)"
      and mp: "core_map (dbfile db') =
          store_bytes m1 (if entoff > 0 then entoff else boff db + bidx * width db)
            (writefixnum (drop_bit (apow db) (fb_off fb)) (width db))"
      by blast
    define rec2 where "rec2 = rec\<lparr>r_off := fb_off fb, r_rsiz := fb_rsiz fb - nsiz,
                        r_psiz := fb_rsiz fb - rsiz - nsiz\<rparr>"
    have o2: "r_off rec2 = fb_off fb" "r_rsiz rec2 = fb_rsiz fb - nsiz" by (simp_all add: rec2_def)
    note ok2' = ok2 [folded rec2_def] and ld' = ld [folded rec2_def]
    have "rec_at db' rec2
      \<and> chain db' kbuf pivot (relink_last rs entoff (r_off rec2)) (bucket_off db' bidx) 0
          (r_off rec2) entoff"
      using pb p fr ld' mp pa
      by (intro link_new_record [OF m c _ ch ra bi ok2', where B = "fb_rsiz fb" and ?m1.0 = m1])
         (simp_all add: o2)
    moreover have "0 < r_off rec2" using pb(1) bs(2) by (simp add: o2)
    ultimately show ?thesis
      using e c cf p fs by (intro exI [of _ db'] exI [of _ rec2]) (simp add: rec2_def)
  qed
qed

subsection \<open>A visitor that creates the record\<close>

lemma meta_ok_head: "meta_ok db \<Longrightarrow> 64 \<le> boff db \<and> boff db \<le> roff db"
  by (simp add: meta_ok_def HDBHEADSIZ_def)

lemma frame_above_header:
  assumes m: "meta_ok db" and c: "same_conf db' db" and ps: "psiz db \<le> psiz db'"
    and fr: "\<forall>i. 64 \<le> i \<longrightarrow> core_map (dbfile db') i = core_map (dbfile db) i"
  shows "rec_at db r \<Longrightarrow> rec_at db' r"
    and "chain db kbuf pivot rs off entoff off' entoff' \<Longrightarrow>
           chain db' kbuf pivot rs off entoff off' entoff'"
    and "bucket_off db' bidx = bucket_off db bidx"
proof -
  note h = meta_ok_head [OF m]
  have ld: "\<And>a n. roff db \<le> a \<Longrightarrow>
     load_bytes (core_map (dbfile db')) a n = load_bytes (core_map (dbfile db)) a n"
    using fr h by (intro load_cong) auto
  show "rec_at db r \<Longrightarrow> rec_at db' r"
  proof -
    assume a: "rec_at db r"
    then have "roff db \<le> r_off r" by (simp add: rec_at_def)
    from rec_at_frame [OF a c ps ld [OF this]] show ?thesis .
  qed
  show "chain db kbuf pivot rs off entoff off' entoff' \<Longrightarrow>
           chain db' kbuf pivot rs off entoff off' entoff'"
  proof -
    assume ch: "chain db kbuf pivot rs off entoff off' entoff'"
    from chain_roff [OF ch] ld
    have "\<forall>r\<in>set rs. load_bytes (core_map (dbfile db')) (r_off r) (r_rsiz r)
                    = load_bytes (core_map (dbfile db)) (r_off r) (r_rsiz r)" by simp
    from chain_frame [OF c ps ch this] show ?thesis .
  qed
  have "load_bytes (core_map (dbfile db')) (boff db + bidx * width db) (width db)
          = load_bytes (core_map (dbfile db)) (boff db + bidx * width db) (width db)"
    using fr h by (intro load_cong) auto
  then show "bucket_off db' bidx = bucket_off db bidx"
    by (rule bucket_off_frame [OF c])
qed

lemma pool_ok_conf:
  assumes c: "same_conf db' db" and "fbp db' = fbp db" and "psiz db' = psiz db"
  shows "pool_ok db' rs = pool_ok db rs"
  unfolding pool_ok_def same_conf_fields [OF c] same_conf_addr_ok [OF c] assms(2,3) ..

lemma accept_empty_replace:
  assumes m: "meta_ok db"
    and fs: "psiz db \<le> lsiz db" "roff db \<le> lsiz db" "addr_ok db (lsiz db)"
    and bi: "bidx < bnum db"
    and ch: "chain db kbuf pivot rs (bucket_off db bidx) 0 offE entoff"
    and ra: "recs_apart rs" and po: "pool_ok db rs"
    and vis: "visit_empty visitor vst kbuf = (Replace v, vst1)"
    and sv: "stored_value db v = Some z"
    and lz: "length z < 2 ^ 35" and lk: "length kbuf < 2 ^ 35"
  shows "\<exists>db' rec2.
     accept_empty db kbuf visitor vst bidx entoff = (True, vst1, db')
     \<and> same_conf db' db \<and> count db' = count db + 1 \<and> frgcnt db' = frgcnt db
     \<and> psiz db' \<le> lsiz db'
     \<and> rec_at db' rec2 \<and> 0 < r_off rec2
     \<and> r_kbuf rec2 = Some kbuf \<and> r_vbuf rec2 = Some z
     \<and> chain db' kbuf pivot (relink_last rs entoff (r_off rec2)) (bucket_off db' bidx) 0
         (r_off rec2) entoff"
proof -
  from auto_begin_ok [of db] obtain atran db2 where
    ab: "auto_begin db = (True, atran, db2)" and c2: "same_conf db2 db"
    and mp2: "core_map (dbfile db2) = core_map (dbfile db)" and f2: "fbp db2 = fbp db"
    "lsiz db2 = lsiz db" "psiz db2 = psiz db" "count db2 = count db" "frgcnt db2 = frgcnt db"
    by blast
  have m2: "meta_ok db2" using m same_conf_meta_ok [OF c2] by simp
  have fr2: "\<forall>i. 64 \<le> i \<longrightarrow> core_map (dbfile db2) i = core_map (dbfile db) i"
    using mp2 by simp
  have ps2: "psiz db \<le> psiz db2" using f2 by simp
  note fa2 = frame_above_header [OF m c2 ps2 fr2]
  have ch2: "chain db2 kbuf pivot rs (bucket_off db2 bidx) 0 offE entoff"
    using fa2(2) [OF ch] fa2(3) by simp
  have po2: "pool_ok db2 rs" using po pool_ok_conf [OF c2 f2(1) f2(3)] by simp
  have fs2: "psiz db2 \<le> lsiz db2" "roff db2 \<le> lsiz db2" "addr_ok db2 (lsiz db2)"
    using fs f2 same_conf_fields(4) [OF c2] same_conf_addr_ok [OF c2] by simp_all
  have bi2: "bidx < bnum db2" using bi same_conf_fields(8) [OF c2] by simp
  define rsiz where "rsiz = calc_record_size db2 (length kbuf) (length z)"
  define psiz1 where "psiz1 = calc_record_padding db2 rsiz"
  define rec where "rec = \<lparr>r_off = 0, r_rsiz = rsiz + psiz1, r_psiz = psiz1,
                                r_ksiz = length kbuf, r_vsiz = length z, r_left = 0,
                                r_right = 0, r_kbuf = Some kbuf, r_vbuf = Some z,
                                r_boff = 0, r_bbuf = None\<rparr>"
  have rz: "rsiz = rec_hsiz db2 rec + r_ksiz rec + r_vsiz rec"
    unfolding rsiz_def using lk lz
    by (subst calc_record_size_hsiz [where rec = rec]) (simp_all add: rec_def)
  have flds: "r_kbuf rec = Some kbuf" "r_vbuf rec = Some z" "r_ksiz rec = length kbuf"
    "r_vsiz rec = length z" "r_left rec = 0" "r_right rec = 0" "r_psiz rec = psiz1"
    "r_rsiz rec = rsiz + psiz1"
    by (simp_all add: rec_def)
  have p16: "psiz1 \<le> INT16_MAX"
    unfolding psiz1_def by (rule calc_record_padding_le [OF m2])
  have ok: "rec_ok db2 rec"
    unfolding rec_ok_def flds option.case
    using p16 lk lz rz [unfolded flds] by simp
  from write_new_record_linked [OF m2 fs2 bi2 ok rz ch2 ra po2, of True atran]
  obtain db6 rec2 where
    w: "write_new_record db2 rec rsiz True bidx entoff atran = (True, db6)"
    and c6: "same_conf db6 db2" and f6: "count db6 = count db2" "frgcnt db6 = frgcnt db2"
    and p6: "psiz db2 \<le> psiz db6" "psiz db6 \<le> lsiz db6"
    and a6: "rec_at db6 rec2" and o6: "0 < r_off rec2"
    and kv: "r_kbuf rec2 = r_kbuf rec" "r_vbuf rec2 = r_vbuf rec"
    and ch6: "chain db6 kbuf pivot (relink_last rs entoff (r_off rec2)) (bucket_off db6 bidx) 0
         (r_off rec2) entoff"
    by blast
  define db6c where "db6c = db6\<lparr>count := count db6 + 1\<rparr>"
  from auto_finish_ok [of db6c atran] obtain db7 where
    af: "auto_finish db6c atran = (True, db7)" and c7: "same_conf db7 db6c"
    and fr7: "\<forall>i. 64 \<le> i \<longrightarrow> core_map (dbfile db7) i = core_map (dbfile db6c) i"
    and f7: "lsiz db7 = lsiz db6c" "psiz db7 = psiz db6c" "count db7 = count db6c"
      "frgcnt db7 = frgcnt db6c"
    by blast
  have c6c: "same_conf db6c db6" by (simp add: db6c_def same_conf_def)
  have m6: "meta_ok db6" using m2 same_conf_meta_ok [OF c6] by simp
  have c76: "same_conf db7 db6" using c7 c6c by (rule same_conf_trans)
  have fr76: "\<forall>i. 64 \<le> i \<longrightarrow> core_map (dbfile db7) i = core_map (dbfile db6) i"
    using fr7 by (simp add: db6c_def)
  have ps76: "psiz db6 \<le> psiz db7" using f7 by (simp add: db6c_def)
  note fa7 = frame_above_header [OF m6 c76 ps76 fr76]
  have c70: "same_conf db7 db"
    using c76 c6 c2 by (blast intro: same_conf_trans)
  have e: "accept_empty db kbuf visitor vst bidx entoff = (True, vst1, db7)"
    unfolding accept_empty_def vis prod.case VisitResult.case
      sv [unfolded stored_value_def] option.case ab Let_def
      rsiz_def [symmetric] psiz1_def [symmetric] rec_def [symmetric] w
      db6c_def [symmetric] af
    by simp
  have "chain db7 kbuf pivot (relink_last rs entoff (r_off rec2)) (bucket_off db7 bidx) 0
         (r_off rec2) entoff"
    using fa7(2) [OF ch6] fa7(3) by simp
  then show ?thesis
    using e c70 fa7(1) [OF a6] o6 kv f7 f6 f2 p6
    by (intro exI [of _ db7] exI [of _ rec2]) (simp add: flds db6c_def)
qed

subsection \<open>The operations on a key that is there, and on one that is not\<close>

lemma accept_found_nop:
  assumes m: "meta_ok db" and om: "omode db \<noteq> 0" and wr: "writable \<longrightarrow> writer db"
    and df: "dfunit db = 0"
    and l: "lookup db kbuf rs (r_off r) entoff"
    and a: "rec_at db r" and p: "r_off r > 0" and k: "r_kbuf r = Some kbuf"
    and sv: "shown_value db r = Some v"
    and vis: "visit_full visitor vst kbuf v = (NOP, vst1)"
    and f: "length rs < fuel"
  shows "accept fuel db kbuf visitor vst writable = Some (True, vst1, db)"
proof -
  have "accept_impl fuel db kbuf visitor vst (unat (hash_record db kbuf) mod bnum db)
          (fold_hash (hash_record db kbuf)) False = Some (True, vst1, db)"
    using accept_impl_found_nop [OF m l a p k sv vis f, of False]
    by (simp add: key_bidx_def key_pivot_def)
  then show ?thesis
    using om wr df by (simp add: accept_def Let_def)
qed

lemma accept_absent_replace:
  assumes so: "store_ok db"
    and l: "lookup db kbuf rs 0 entoff"
    and ra: "recs_apart rs" and po: "pool_ok db rs"
    and vis: "visit_empty visitor vst kbuf = (Replace v, vst1)"
    and sv: "stored_value db v = Some z"
    and lz: "length z < 2 ^ 35" and lk: "length kbuf < 2 ^ 35"
    and f: "length rs < fuel"
  shows "\<exists>db' rec2 rs'.
     accept fuel db kbuf visitor vst True = Some (True, vst1, db')
     \<and> same_conf db' db \<and> count db' = count db + 1 \<and> psiz db' \<le> lsiz db'
     \<and> length rs' = length rs
     \<and> lookup db' kbuf rs' (r_off rec2) entoff
     \<and> rec_at db' rec2 \<and> 0 < r_off rec2
     \<and> r_kbuf rec2 = Some kbuf \<and> r_vbuf rec2 = Some z"
proof -
  from so have m: "meta_ok db" and om: "omode db \<noteq> 0" and wr: "writer db"
    and bn: "0 < bnum db" and df: "dfunit db = 0"
    and fs: "psiz db \<le> lsiz db" "roff db \<le> lsiz db" "addr_ok db (lsiz db)"
    by (simp_all add: store_ok_def)
  define bidx where "bidx = key_bidx db kbuf"
  define pivot where "pivot = key_pivot db kbuf"
  have bi: "bidx < bnum db" using bn by (simp add: bidx_def key_bidx_def)
  from l have ch: "chain db kbuf pivot rs (bucket_off db bidx) 0 0 entoff"
    by (simp add: lookup_def bidx_def pivot_def)
  from accept_empty_replace [OF m fs bi ch ra po vis sv lz lk]
  obtain db' rec2 where
    e: "accept_empty db kbuf visitor vst bidx entoff = (True, vst1, db')"
    and c: "same_conf db' db" and cn: "count db' = count db + 1"
    and ps: "psiz db' \<le> lsiz db'"
    and a: "rec_at db' rec2" and o: "0 < r_off rec2"
    and kv: "r_kbuf rec2 = Some kbuf" "r_vbuf rec2 = Some z"
    and ch': "chain db' kbuf pivot (relink_last rs entoff (r_off rec2)) (bucket_off db' bidx) 0
         (r_off rec2) entoff"
    by blast
  from f obtain fuel' where fu: "fuel = length rs + Suc fuel'"
    by (metis less_iff_Suc_add add_Suc_right)
  have "accept_loop (length rs + Suc fuel') db kbuf visitor vst bidx pivot False
          (bucket_off db bidx) 0
        = Some (accept_empty db kbuf visitor vst bidx entoff)"
    unfolding accept_loop_chain [OF m ch] by (rule accept_loop_empty)
  then have ai: "accept_impl fuel db kbuf visitor vst bidx pivot False = Some (True, vst1, db')"
    unfolding accept_impl_def get_bucket_off prod.case option.case fu e .
  have df': "dfunit db' = 0" using df same_conf_fields(13) [OF c] by simp
  have ac: "accept fuel db kbuf visitor vst True = Some (True, vst1, db')"
    using om wr df' ai
    by (simp add: accept_def Let_def bidx_def pivot_def key_bidx_def key_pivot_def)
  have kb: "key_bidx db' kbuf = bidx" "key_pivot db' kbuf = pivot"
    by (simp_all add: key_bidx_def key_pivot_def hash_record_def bidx_def pivot_def
          same_conf_fields [OF c])
  have l': "lookup db' kbuf (relink_last rs entoff (r_off rec2)) (r_off rec2) entoff"
    using ch' by (simp add: lookup_def kb)
  have ln: "length (relink_last rs entoff (r_off rec2)) = length rs"
    by (simp add: relink_last_def)
  show ?thesis
    using ac c cn ps ln l' a o kv by blast
qed

lemma same_conf_set_error: "same_conf (set_error db code msg) db"
  by (simp add: set_error_def same_conf_def Let_def)

lemma set_error_frame:
  "core_map (dbfile (set_error db code msg)) = core_map (dbfile db)"
  "psiz (set_error db code msg) = psiz db"
  by (simp_all add: set_error_def Let_def)

lemma shown_value_conf:
  "same_conf db' db \<Longrightarrow> shown_value db' r = shown_value db r"
  by (simp add: shown_value_def same_conf_fields)

lemma lookup_frame:
  assumes m: "meta_ok db" and c: "same_conf db' db" and ps: "psiz db \<le> psiz db'"
    and fr: "\<forall>i. 64 \<le> i \<longrightarrow> core_map (dbfile db') i = core_map (dbfile db) i"
    and l: "lookup db kbuf rs off entoff"
  shows "lookup db' kbuf rs off entoff"
proof -
  have kb: "key_bidx db' kbuf = key_bidx db kbuf" "key_pivot db' kbuf = key_pivot db kbuf"
    by (simp_all add: key_bidx_def key_pivot_def hash_record_def same_conf_fields [OF c])
  note fa = frame_above_header [OF m c ps fr]
  show ?thesis
    using fa(2) [OF l [unfolded lookup_def]] unfolding lookup_def kb fa(3) .
qed

subsection \<open>Adding a record twice\<close>

lemma shown_value_stored:
  "r_vbuf r = Some z \<Longrightarrow> shown_value db r = unstored_value db z"
  by (simp add: shown_value_def unstored_value_def split: option.splits)

lemma unstored_value_conf:
  "same_conf db' db \<Longrightarrow> unstored_value db' z = unstored_value db z"
  by (simp add: unstored_value_def same_conf_fields)


subsection \<open>The example database\<close>

lemma example_open_fields:
  "apow (example_open 0) = 3" "align (example_open 0) = 8" "width (example_open 0) = 6"
  "linear (example_open 0) = False" "compr (example_open 0) = None"
  "rhsiz (example_open 0) = 16" "boff (example_open 0) = 102" "roff (example_open 0) = 208"
  "lsiz (example_open 0) = 208" "psiz (example_open 0) = 208" "bnum (example_open 0) = 17"
  "fbp (example_open 0) = []" "omode (example_open 0) = 6" "writer (example_open 0) = True"
  "dfunit (example_open 0) = 0" "hashmurmur (example_open 0) = (\<lambda>k. 0)"
  "core_map (dbfile (example_open 0)) = (\<lambda>i. 0)"
  by (simp_all add: example_open_def calc_meta_def HashDB_new_def File_new_def Let_def
        TSMALL_def TLINEAR_def TCOMPRESS_def HDBWIDTHLARGE_def HDBWIDTHSMALL_def HDBHEADSIZ_def
        HDBFBPWIDTH_def HDBDEFAPOW_def OWRITER_def OCREATE_def)

lemma be_bytes_zero: "be_bytes w 0 = replicate w 0"
  by (induction w) (simp_all add: replicate_append_same)

lemma readfixnum_zeros: "readfixnum (replicate w 0) w = 0"
  using readfixnum_writefixnum [of 0 w "[]"]
  by (simp add: writefixnum_def be_bytes_zero)

lemma load_bytes_zero: "load_bytes (\<lambda>i. 0) off n = replicate n 0"
  by (simp add: load_bytes_eq_iff)

lemma example_open_store_ok: "store_ok (example_open 0)"
  by (simp add: store_ok_def meta_ok_def addr_ok_def example_open_fields HDBMAXAPOW_def
        HDBWIDTHLARGE_def HDBHEADSIZ_def drop_bit_eq_div)

lemma example_open_lookup: "lookup (example_open 0) kbuf [] 0 0"
  by (simp add: lookup_def bucket_off_def example_open_fields load_bytes_zero readfixnum_zeros)


lemma example_open_stored: "stored_value (example_open 0) v = Some v"
  "unstored_value (example_open 0) v = Some v"
  by (simp_all add: stored_value_def unstored_value_def example_open_fields)

lemma example_open_pool: "pool_ok (example_open 0) []"
  by (simp add: pool_ok_def example_open_fields)

lemma example_added_eq: "db_add 1 (example_open 0) [1, 2] [3] = Some (True, example_added)"
proof -
  have "visit_empty (add_visitor [3]) False [1, 2] = (Replace [3], True)"
    by (simp add: add_visitor_def)
  from accept_absent_replace [OF example_open_store_ok example_open_lookup _ example_open_pool
      this example_open_stored(1), of 1]
  obtain db' where "accept 1 (example_open 0) [1, 2] (add_visitor [3]) False True
                      = Some (True, True, db')"
    by auto
  then show ?thesis by (simp add: db_add_def example_added_def)
qed


subsection \<open>Frames\<close>

lemma recs_apart_snoc:
  "recs_apart (rs @ [r]) \<longleftrightarrow>
     recs_apart rs \<and> (\<forall>r'\<in>set rs. apart (r_off r') (r_rsiz r') (r_off r) (r_rsiz r))"
  by (induction rs) (auto simp: list_all_iff)

lemma apart_sym: "apart a n b m = apart b m a n"
  by (auto simp: apart_def)

lemma be_nat_bound: "be_nat bs < 256 ^ length bs"
proof (induction bs rule: rev_induct)
  case Nil
  then show ?case by (simp add: be_nat_def)
next
  case (snoc b bs)
  have "unat b < 2 ^ LENGTH(8)" by (rule unsigned_less)
  then have "unat b < 256" by simp
  with snoc show ?case by (simp add: be_nat_snoc)
qed

lemma readfixnum_bound: "readfixnum buf w < 256 ^ w"
proof -
  have "be_nat (take w buf) < 256 ^ length (take w buf)" by (rule be_nat_bound)
  also have "\<dots> \<le> (256::nat) ^ w" by (intro power_increasing) simp_all
  finally show ?thesis by (simp add: readfixnum_def)
qed

lemma addr_ok_push_bit: "addr_ok db (push_bit (apow db) (readfixnum buf (width db)))"
  by (simp add: addr_ok_def readfixnum_bound push_bit_eq_mult drop_bit_eq_div)

lemma addr_ok_bucket_off: "addr_ok db (bucket_off db bidx)"
  unfolding bucket_off_def by (rule addr_ok_push_bit)

lemma step_dir_addr_ok:
  "rec_ok db r \<Longrightarrow> step_dir db kbuf pivot r = Some (off, entoff) \<Longrightarrow> addr_ok db off"
  by (auto simp: rec_ok_def dest!: step_dir_slot)

lemma chain_addr_ok:
  "chain db kbuf pivot rs off entoff off' entoff' \<Longrightarrow> addr_ok db off \<Longrightarrow> addr_ok db off'"
proof (induction rs arbitrary: off entoff)
  case Nil
  then show ?case by simp
next
  case (Cons r rs)
  from Cons.prems(1) obtain off1 entoff1 where a: "rec_at db r"
    and s: "step_dir db kbuf pivot r = Some (off1, entoff1)"
    and ch: "chain db kbuf pivot rs off1 entoff1 off' entoff'"
    by (auto split: option.splits)
  from a have "rec_ok db r" by (simp add: rec_at_def)
  from Cons.IH [OF ch step_dir_addr_ok [OF this s]] show ?case .
qed

lemma frame_outside_region:
  assumes m: "meta_ok db" and c: "same_conf db' db" and ps: "psiz db \<le> psiz db'"
    and ro: "roff db \<le> a"
    and fr: "\<forall>i. i < a \<or> a + n \<le> i \<longrightarrow> core_map (dbfile db') i = core_map (dbfile db) i"
    and bi: "bidx < bnum db"
  shows "chain db kbuf pivot rs off entoff off' entoff' \<Longrightarrow>
           \<forall>r'\<in>set rs. apart (r_off r') (r_rsiz r') a n \<Longrightarrow>
           chain db' kbuf pivot rs off entoff off' entoff'"
    and "bucket_off db' bidx = bucket_off db bidx"
proof -
  show "chain db kbuf pivot rs off entoff off' entoff' \<Longrightarrow>
           \<forall>r'\<in>set rs. apart (r_off r') (r_rsiz r') a n \<Longrightarrow>
           chain db' kbuf pivot rs off entoff off' entoff'"
  proof -
    assume ch: "chain db kbuf pivot rs off entoff off' entoff'"
      and ap: "\<forall>r'\<in>set rs. apart (r_off r') (r_rsiz r') a n"
    have "\<forall>r\<in>set rs. load_bytes (core_map (dbfile db')) (r_off r) (r_rsiz r)
                    = load_bytes (core_map (dbfile db)) (r_off r) (r_rsiz r)"
    proof
      fix r assume "r \<in> set rs"
      with ap have "apart (r_off r) (r_rsiz r) a n" by simp
      with fr show "load_bytes (core_map (dbfile db')) (r_off r) (r_rsiz r)
                    = load_bytes (core_map (dbfile db)) (r_off r) (r_rsiz r)"
        by (intro load_cong) (auto simp: apart_def)
    qed
    from chain_frame [OF c ps ch this] show ?thesis .
  qed
  note bs = bucket_slot_below [OF m bi]
  have "load_bytes (core_map (dbfile db')) (boff db + bidx * width db) (width db)
          = load_bytes (core_map (dbfile db)) (boff db + bidx * width db) (width db)"
    using fr bs ro by (intro load_cong) auto
  then show "bucket_off db' bidx = bucket_off db bidx"
    by (rule bucket_off_frame [OF c])
qed

lemma pool_ok_subset:
  assumes "pool_ok db rs" and c: "same_conf db' db" and "psiz db \<le> psiz db'"
    and "set (fbp db') \<subseteq> insert \<lparr>fb_off = a, fb_rsiz = n\<rparr> (set (fbp db))"
    and "roff db \<le> a" "a + n \<le> psiz db'" "addr_ok db a"
    and "\<forall>r\<in>set rs. apart a n (r_off r) (r_rsiz r)"
  shows "pool_ok db' rs"
  using assms(1,3-)
  unfolding pool_ok_def same_conf_fields [OF c] same_conf_addr_ok [OF c] list_all_iff
  by fastforce

end
